theory Spec2Isabelle
  imports Main "HOL-Library.Word" "HOL-Library.Code_Target_Numeral"
begin

text \<open>
  The state logic of the PDF chat application: the component \<open>AppContent\<close> (its handlers
  \<open>createNewChat\<close>, \<open>handleDeleteChat\<close>, \<open>handleFileUpload\<close>, \<open>handleSendMessage\<close>, the
  initialiser of \<open>chats\<close> and the effect that persists it) and \<open>handleSubmit\<close> of
  \<open>ChatWindow\<close>. A handler is a function from the component state to the component state;
  what it draws from its environment (a fresh identifier, the time, the outcome of an
  awaited call) is an argument. An asynchronous handler is split at its \<open>await\<close> into the
  part before and the part after, which runs on the state of that later moment with the
  values the handler closed over.
\<close>

section \<open>Strings of the source language\<close>

text \<open>
  A JavaScript string is a sequence of 16-bit code units. String literals of the source
  are written with \<open>lit\<close>, which maps each ASCII character to its code unit.
\<close>

type_synonym jschar = "16 word"
type_synonym jsstring = "jschar list"

definition lit :: "string \<Rightarrow> jsstring" where
  "lit s = map (\<lambda>c. word_of_nat (of_char c)) s"

text \<open>
  \<open>String.prototype.trim\<close> removes leading and trailing white space and line
  terminators: TAB, LF, VT, FF, CR, SPACE, NBSP, U+1680, U+2000..U+200A, U+2028, U+2029,
  U+202F, U+205F, U+3000 and U+FEFF.
\<close>

definition is_ws :: "jschar \<Rightarrow> bool" where
  "is_ws c \<longleftrightarrow>
     c = 0x09 \<or> c = 0x0A \<or> c = 0x0B \<or> c = 0x0C \<or> c = 0x0D \<or> c = 0x20 \<or> c = 0xA0 \<or>
     c = 0x1680 \<or> (0x2000 \<le> c \<and> c \<le> 0x200A) \<or> c = 0x2028 \<or> c = 0x2029 \<or>
     c = 0x202F \<or> c = 0x205F \<or> c = 0x3000 \<or> c = 0xFEFF"

definition trim :: "jsstring \<Rightarrow> jsstring" where
  "trim s = rev (dropWhile is_ws (rev (dropWhile is_ws s)))"

text \<open>\<open>message.slice(0, 30)\<close>: the first 30 code units, or all of them when there are fewer.\<close>

definition slice0 :: "nat \<Rightarrow> jsstring \<Rightarrow> jsstring" where
  "slice0 n s = take n s"

section \<open>Data model: sessions, messages, notifications, component state\<close>

datatype sender = User | Ai | System

record message =
  msg_id :: jsstring
  content :: jsstring
  sender :: sender
  timestamp :: jsstring

text \<open>
  A chat object as \<open>createNewChat\<close> builds it; \<open>pdfData\<close> is absent until an upload
  succeeds. The payload type \<open>'p\<close> is whatever \<open>processPDF\<close> resolves to. The field \<open>id\<close>
  of the source is \<open>chat_id\<close> here, and \<open>msg_id\<close> in a message.
\<close>

record 'p chat =
  chat_id :: jsstring
  title :: jsstring
  messages :: "message list"
  createdAt :: jsstring
  pdfData :: "'p option"

datatype status = Info | Success | Error

record toast =
  toast_title :: jsstring
  description :: "jsstring option"
  status :: status
  duration :: nat
  isClosable :: bool

text \<open>
  The component state of \<open>AppContent\<close>: the three \<open>useState\<close> cells, and the notifications
  handed to \<open>toast\<close> so far. \<open>activeChat\<close> is \<open>null\<close> (\<open>None\<close>) or a session identifier.
\<close>

record 'p app_state =
  chats :: "'p chat list"
  activeChat :: "jsstring option"
  isLoading :: bool
  toasts :: "toast list"

definition init_state :: "'p chat list \<Rightarrow> 'p app_state" where
  "init_state loaded = \<lparr>chats = loaded, activeChat = None, isLoading = False, toasts = []\<rparr>"

text \<open>A thrown value, of which the handlers read only \<open>error.message\<close> (possibly undefined).\<close>

record js_error =
  err_message :: "jsstring option"

text \<open>The uploaded \<open>File\<close>, of which the handlers read only \<open>file.name\<close>.\<close>

record js_file =
  name :: jsstring

text \<open>Truthiness of \<open>activeChat\<close> and of a string: \<open>null\<close> and the empty string are falsy.\<close>

definition truthy_str :: "jsstring \<Rightarrow> bool" where
  "truthy_str s \<longleftrightarrow> s \<noteq> []"

definition truthy_active :: "jsstring option \<Rightarrow> bool" where
  "truthy_active a = (case a of None \<Rightarrow> False | Some i \<Rightarrow> truthy_str i)"

text \<open>
  The transcript handed to \<open>ChatWindow\<close>:
  \<open>activeChat ? (chats.find(c => c.id === activeChat)?.messages || []) : []\<close>.
\<close>

definition transcript :: "'p app_state \<Rightarrow> message list" where
  "transcript s =
     (if truthy_active (activeChat s)
      then (case find (\<lambda>c. Some (chat_id c) = activeChat s) (chats s) of
              None \<Rightarrow> [] | Some c \<Rightarrow> messages c)
      else [])"

section \<open>createNewChat and handleDeleteChat\<close>

text \<open>
  \<open>uuidv4()\<close> and \<open>new Date().toISOString()\<close> are inputs from the environment: each
  handler takes the identifier and the time it would draw. These two handlers run to their
  end in the event that issues them, from the render of the state they are applied to:
  the \<open>chats\<close> that \<open>createNewChat\<close> closed over and the \<open>activeChat\<close> that
  \<open>handleDeleteChat\<close> closed over are those of that state.
\<close>

definition newChat :: "jsstring \<Rightarrow> jsstring \<Rightarrow> 'p chat" where
  "newChat uuid now =
     \<lparr>chat_id = uuid, title = lit ''New Chat'', messages = [], createdAt = now, pdfData = None\<rparr>"

definition createNewChat :: "jsstring \<Rightarrow> jsstring \<Rightarrow> 'p app_state \<Rightarrow> 'p app_state" where
  "createNewChat uuid now s =
     s\<lparr>chats := newChat uuid now # chats s, activeChat := Some uuid\<rparr>"

definition deleted_toast :: toast where
  "deleted_toast =
     \<lparr>toast_title = lit ''Chat deleted'', description = None, status = Info,
      duration = 3000, isClosable = True\<rparr>"

definition handleDeleteChat :: "jsstring \<Rightarrow> 'p app_state \<Rightarrow> 'p app_state" where
  "handleDeleteChat i s =
     s\<lparr>chats := filter (\<lambda>c. chat_id c \<noteq> i) (chats s),
       activeChat := (if activeChat s = Some i then None else activeChat s),
       toasts := toasts s @ [deleted_toast]\<rparr>"

datatype op = Create jsstring jsstring | Delete jsstring

fun apply_op :: "'p app_state \<Rightarrow> op \<Rightarrow> 'p app_state" where
  "apply_op s (Create uuid now) = createNewChat uuid now s"
| "apply_op s (Delete i) = handleDeleteChat i s"

definition run_ops :: "op list \<Rightarrow> 'p app_state \<Rightarrow> 'p app_state" where
  "run_ops ops s = foldl apply_op s ops"

text \<open>The active identifier is unset or names a session of the list.\<close>

definition active_ok :: "'p app_state \<Rightarrow> bool" where
  "active_ok s = (case activeChat s of None \<Rightarrow> True | Some a \<Rightarrow> a \<in> chat_id ` set (chats s))"

section \<open>handleFileUpload\<close>

text \<open>
  The updater handed to \<open>setChats\<close> after \<open>processPDF\<close> resolved (lines 64--83); the
  \<open>activeChat\<close> it compares with is the one the handler closed over.
\<close>

definition upload_message :: "js_file \<Rightarrow> jsstring \<Rightarrow> jsstring \<Rightarrow> message" where
  "upload_message f uuid now =
     \<lparr>msg_id = uuid, content = lit ''Uploaded and processed PDF: '' @ name f,
      sender = System, timestamp = now\<rparr>"

definition attachDocument ::
  "jsstring option \<Rightarrow> 'p \<Rightarrow> js_file \<Rightarrow> jsstring \<Rightarrow> jsstring \<Rightarrow> 'p chat list \<Rightarrow> 'p chat list" where
  "attachDocument active result f uuid now cs =
     map (\<lambda>c. if Some (chat_id c) = active
               then c\<lparr>pdfData := Some result,
                      title := lit ''PDF: '' @ name f,
                      messages := messages c @ [upload_message f uuid now]\<rparr>
               else c) cs"

definition processed_toast :: toast where
  "processed_toast =
     \<lparr>toast_title = lit ''PDF Processed'',
      description =
        Some (lit ''The PDF has been successfully processed and is ready for querying.''),
      status = Success, duration = 5000, isClosable = True\<rparr>"

definition upload_error_toast :: "js_error \<Rightarrow> toast" where
  "upload_error_toast e =
     \<lparr>toast_title = lit ''Error'',
      description =
        Some (case err_message e of
                None \<Rightarrow> lit ''Failed to process PDF''
              | Some m \<Rightarrow> if truthy_str m then m else lit ''Failed to process PDF''),
      status = Error, duration = 5000, isClosable = True\<rparr>"

text \<open>Up to the \<open>await\<close>: \<open>setIsLoading(true)\<close>, then \<open>processPDF(file)\<close> is called.\<close>

definition handleFileUpload_begin :: "'p app_state \<Rightarrow> 'p app_state" where
  "handleFileUpload_begin s = s\<lparr>isLoading := True\<rparr>"

text \<open>
  After the \<open>await\<close>: the outcome of \<open>processPDF\<close> is \<open>Inr result\<close> or \<open>Inl error\<close>
  (the promise rejected). \<open>s\<close> is the state at that moment.
\<close>

definition handleFileUpload_resolve ::
  "jsstring option \<Rightarrow> js_file \<Rightarrow> js_error + 'p \<Rightarrow> jsstring \<Rightarrow> jsstring \<Rightarrow> 'p app_state \<Rightarrow> 'p app_state" where
  "handleFileUpload_resolve active f outcome uuid now s =
     (case outcome of
        Inr result \<Rightarrow>
          s\<lparr>chats := attachDocument active result f uuid now (chats s),
            toasts := toasts s @ [processed_toast],
            isLoading := False\<rparr>
      | Inl e \<Rightarrow>
          s\<lparr>toasts := toasts s @ [upload_error_toast e],
            isLoading := False\<rparr>)"

definition handleFileUpload ::
  "js_file \<Rightarrow> js_error + 'p \<Rightarrow> jsstring \<Rightarrow> jsstring \<Rightarrow> 'p app_state \<Rightarrow> 'p app_state" where
  "handleFileUpload f outcome uuid now s =
     handleFileUpload_resolve (activeChat s) f outcome uuid now (handleFileUpload_begin s)"

section \<open>handleSendMessage\<close>

text \<open>
  What a handler closed over: the \<open>chats\<close> and the \<open>activeChat\<close> of the render that created
  it. \<open>render_of s\<close> is the render of the state \<open>s\<close>; a handler of an earlier render holds
  earlier values.
\<close>

record 'p render =
  seen_chats :: "'p chat list"
  seen_activeChat :: "jsstring option"

definition render_of :: "'p app_state \<Rightarrow> 'p render" where
  "render_of s = \<lparr>seen_chats = chats s, seen_activeChat = activeChat s\<rparr>"

definition userMessage :: "jsstring \<Rightarrow> jsstring \<Rightarrow> jsstring \<Rightarrow> message" where
  "userMessage msg uuid now = \<lparr>msg_id = uuid, content = msg, sender = User, timestamp = now\<rparr>"

definition aiMessage :: "jsstring \<Rightarrow> jsstring \<Rightarrow> jsstring \<Rightarrow> message" where
  "aiMessage answer uuid now = \<lparr>msg_id = uuid, content = answer, sender = Ai, timestamp = now\<rparr>"

text \<open>\<open>updatedChats\<close> (lines 116--120).\<close>

definition appendUser :: "jsstring option \<Rightarrow> message \<Rightarrow> 'p chat list \<Rightarrow> 'p chat list" where
  "appendUser active um cs =
     map (\<lambda>c. if Some (chat_id c) = active then c\<lparr>messages := messages c @ [um]\<rparr> else c) cs"

text \<open>The updater handed to \<open>setChats\<close> after \<open>queryLLM\<close> resolved (lines 138--148).\<close>

definition appendAi ::
  "jsstring option \<Rightarrow> jsstring \<Rightarrow> message \<Rightarrow> 'p chat list \<Rightarrow> 'p chat list" where
  "appendAi active msg am cs =
     map (\<lambda>c. if Some (chat_id c) = active
               then c\<lparr>messages := messages c @ [am],
                      title := (if length (messages c) = 0
                                then slice0 30 msg @ lit ''...'' else title c)\<rparr>
               else c) cs"

text \<open>The argument of \<open>queryLLM\<close>.\<close>

record 'p query =
  q_message :: jsstring
  q_chatHistory :: "message list"
  q_context :: "'p option"

definition make_query :: "jsstring option \<Rightarrow> jsstring \<Rightarrow> 'p chat list \<Rightarrow> 'p query" where
  "make_query active msg updatedChats =
     \<lparr>q_message = msg,
      q_chatHistory = (case find (\<lambda>c. Some (chat_id c) = active) updatedChats of
                       None \<Rightarrow> [] | Some c \<Rightarrow> messages c),
      q_context = (case find (\<lambda>c. Some (chat_id c) = active) updatedChats of
                   None \<Rightarrow> None | Some c \<Rightarrow> pdfData c)\<rparr>"

text \<open>
  Up to the \<open>await\<close>, for the handler of the render \<open>r\<close> applied to the state \<open>s\<close>. The
  guard and \<open>updatedChats\<close> read the \<open>activeChat\<close> and the \<open>chats\<close> of \<open>r\<close>;
  \<open>setChats(updatedChats)\<close> replaces the \<open>chats\<close> of \<open>s\<close> by that value. The result is the
  state at that moment and the call made: \<open>None\<close> when the handler returned at its guard,
  \<open>Some q\<close> when \<open>queryLLM(q)\<close> was called.
\<close>

definition handleSendMessage_begin ::
  "'p render \<Rightarrow> jsstring \<Rightarrow> jsstring \<Rightarrow> jsstring \<Rightarrow> 'p app_state \<Rightarrow>
   'p app_state \<times> 'p query option" where
  "handleSendMessage_begin r msg uuid now s =
     (if \<not> truthy_str (trim msg) \<or> \<not> truthy_active (seen_activeChat r) then (s, None)
      else
        let updatedChats =
              appendUser (seen_activeChat r) (userMessage msg uuid now) (seen_chats r)
        in (s\<lparr>chats := updatedChats, isLoading := True\<rparr>,
            Some (make_query (seen_activeChat r) msg updatedChats)))"

text \<open>
  Modelled from the spec: \<open>services/api\<close> is not among the sources; the success response of
  the answer-generation call is a body with an \<open>answer\<close> string field.
\<close>

record response =
  answer :: jsstring

definition send_error_toast :: "js_error \<Rightarrow> toast" where
  "send_error_toast e =
     \<lparr>toast_title = lit ''Error getting response'', description = err_message e,
      status = Error, duration = 5000, isClosable = True\<rparr>"

text \<open>
  After the \<open>await\<close>: \<open>active\<close> and \<open>msg\<close> are the values the handler closed over, \<open>s\<close> is
  the state at that moment.
\<close>

definition handleSendMessage_resolve ::
  "jsstring option \<Rightarrow> jsstring \<Rightarrow> js_error + response \<Rightarrow> jsstring \<Rightarrow> jsstring \<Rightarrow>
   'p app_state \<Rightarrow> 'p app_state" where
  "handleSendMessage_resolve active msg outcome uuid now s =
     (case outcome of
        Inr r \<Rightarrow>
          s\<lparr>chats := appendAi active msg (aiMessage (answer r) uuid now) (chats s),
            isLoading := False\<rparr>
      | Inl e \<Rightarrow>
          s\<lparr>toasts := toasts s @ [send_error_toast e], isLoading := False\<rparr>)"

text \<open>
  The whole handler when nothing else happens during the \<open>await\<close>; \<open>uuid1\<close>, \<open>now1\<close> are
  drawn for the user message and \<open>uuid2\<close>, \<open>now2\<close> for the AI message.
\<close>

definition handleSendMessage ::
  "'p render \<Rightarrow> jsstring \<Rightarrow> js_error + response \<Rightarrow> jsstring \<Rightarrow> jsstring \<Rightarrow> jsstring \<Rightarrow>
   jsstring \<Rightarrow> 'p app_state \<Rightarrow> 'p app_state" where
  "handleSendMessage r msg outcome uuid1 now1 uuid2 now2 s =
     (case handleSendMessage_begin r msg uuid1 now1 s of
        (s', None) \<Rightarrow> s'
      | (s', Some q) \<Rightarrow>
          handleSendMessage_resolve (seen_activeChat r) msg outcome uuid2 now2 s')"

text \<open>
  \<open>handleSubmit\<close> of \<open>ChatWindow\<close>, with \<open>onSendMessage\<close> as the render \<open>r\<close> of \<open>AppContent\<close>
  passes it: \<open>activeChat ? handleSendMessage : () => {}\<close>.
\<close>

definition onSendMessage ::
  "'p render \<Rightarrow> jsstring \<Rightarrow> jsstring \<Rightarrow> jsstring \<Rightarrow> 'p app_state \<Rightarrow>
   'p app_state \<times> 'p query option" where
  "onSendMessage r msg uuid now s =
     (if truthy_active (seen_activeChat r) then handleSendMessage_begin r msg uuid now s
      else (s, None))"

definition handleSubmit ::
  "'p render \<Rightarrow> jsstring \<Rightarrow> jsstring \<Rightarrow> jsstring \<Rightarrow> 'p app_state \<Rightarrow>
   'p app_state \<times> 'p query option" where
  "handleSubmit r msg uuid now s =
     (if truthy_str (trim msg) then onSendMessage r msg uuid now s else (s, None))"

section \<open>Persistence: JSON.stringify, JSON.parse, load\<close>

text \<open>
  \<open>JSON.stringify\<close> and \<open>JSON.parse\<close> are built-ins of the platform, which the source calls
  with one argument. They are written here after their definition in the ECMAScript
  standard, on code units.

  A number is finite, or one of \<open>NaN\<close>, \<open>Infinity\<close>, \<open>-Infinity\<close>. The finite numbers
  are the values of the type \<open>'n\<close>: the platform's conversions between a finite number and
  its text are parameters of the functions below (\<open>nt n\<close> is the text \<open>Number::toString\<close>
  gives for the finite number \<open>n\<close>, \<open>nv l\<close> is the number that the number token \<open>l\<close>
  denotes, after rounding).
\<close>

datatype 'n jsnum = Finite 'n | NaN | Infinity | NegInfinity

text \<open>
  The values \<open>JSON.parse\<close> produces and \<open>JSON.stringify\<close> reads. An object is the list
  of its own properties in enumeration order.
\<close>

datatype 'n json =
    JNull
  | JBool bool
  | JNum "'n jsnum"
  | JStr jsstring
  | JArr "'n json list"
  | JObj "(jsstring \<times> 'n json) list"

datatype exn = SyntaxError

subsection \<open>Writing a string\<close>

definition hexdigit :: "nat \<Rightarrow> jschar" where
  "hexdigit d = (if d < 10 then word_of_nat (48 + d) else word_of_nat (87 + d))"

definition hex4 :: "jschar \<Rightarrow> jsstring" where
  "hex4 c =
     [hexdigit (unat c div 4096), hexdigit (unat c div 256 mod 16),
      hexdigit (unat c div 16 mod 16), hexdigit (unat c mod 16)]"

text \<open>\<open>\uXXXX\<close> with lower-case digits.\<close>

definition uesc :: "jschar \<Rightarrow> jsstring" where
  "uesc c = [0x5C, 0x75] @ hex4 c"

definition is_high :: "jschar \<Rightarrow> bool" where
  "is_high c \<longleftrightarrow> 0xD800 \<le> c \<and> c \<le> 0xDBFF"

definition is_low :: "jschar \<Rightarrow> bool" where
  "is_low c \<longleftrightarrow> 0xDC00 \<le> c \<and> c \<le> 0xDFFF"

text \<open>A code unit that is not a surrogate: the short escapes, \<open>\u00XX\<close> below U+0020.\<close>

definition esc1 :: "jschar \<Rightarrow> jsstring" where
  "esc1 c =
     (if c = 0x08 then [0x5C, 0x62]
      else if c = 0x09 then [0x5C, 0x74]
      else if c = 0x0A then [0x5C, 0x6E]
      else if c = 0x0C then [0x5C, 0x66]
      else if c = 0x0D then [0x5C, 0x72]
      else if c = 0x22 then [0x5C, 0x22]
      else if c = 0x5C then [0x5C, 0x5C]
      else if c < 0x20 then uesc c
      else [c])"

text \<open>
  A surrogate pair is written as it is; a surrogate outside a pair is written \<open>\uXXXX\<close>.
\<close>

fun quote_chars :: "jsstring \<Rightarrow> jsstring" where
  "quote_chars [] = []"
| "quote_chars [c] = (if is_high c \<or> is_low c then uesc c else esc1 c)"
| "quote_chars (c # d # ds) =
     (if is_high c \<and> is_low d then c # d # quote_chars ds
      else if is_high c \<or> is_low c then uesc c @ quote_chars (d # ds)
      else esc1 c @ quote_chars (d # ds))"

definition quote :: "jsstring \<Rightarrow> jsstring" where
  "quote s = 0x22 # quote_chars s @ [0x22]"

subsection \<open>JSON.stringify\<close>

fun join_comma :: "jsstring list \<Rightarrow> jsstring" where
  "join_comma [] = []"
| "join_comma [x] = x"
| "join_comma (x # y # ys) = x @ 0x2C # join_comma (y # ys)"

fun JSON_stringify :: "('n \<Rightarrow> jsstring) \<Rightarrow> 'n json \<Rightarrow> jsstring" where
  "JSON_stringify nt JNull = lit ''null''"
| "JSON_stringify nt (JBool b) = (if b then lit ''true'' else lit ''false'')"
| "JSON_stringify nt (JNum x) = (case x of Finite n \<Rightarrow> nt n | _ \<Rightarrow> lit ''null'')"
| "JSON_stringify nt (JStr s) = quote s"
| "JSON_stringify nt (JArr vs) =
     0x5B # join_comma (map (JSON_stringify nt) vs) @ [0x5D]"
| "JSON_stringify nt (JObj kvs) =
     0x7B # join_comma (map (\<lambda>kv. quote (fst kv) @ 0x3A # JSON_stringify nt (snd kv)) kvs)
       @ [0x7D]"

subsection \<open>Reading a string\<close>

definition hexval :: "jschar \<Rightarrow> nat option" where
  "hexval c =
     (if 0x30 \<le> c \<and> c \<le> 0x39 then Some (unat c - 48)
      else if 0x61 \<le> c \<and> c \<le> 0x66 then Some (unat c - 87)
      else if 0x41 \<le> c \<and> c \<le> 0x46 then Some (unat c - 55)
      else None)"

definition unhex4 :: "jschar \<Rightarrow> jschar \<Rightarrow> jschar \<Rightarrow> jschar \<Rightarrow> jschar option" where
  "unhex4 a b c d =
     (case (hexval a, hexval b, hexval c, hexval d) of
        (Some w, Some x, Some y, Some z) \<Rightarrow> Some (word_of_nat (4096 * w + 256 * x + 16 * y + z))
      | _ \<Rightarrow> None)"

text \<open>The character an escape letter stands for.\<close>

definition unescape :: "jschar \<Rightarrow> jschar option" where
  "unescape e =
     (if e = 0x22 then Some 0x22
      else if e = 0x5C then Some 0x5C
      else if e = 0x2F then Some 0x2F
      else if e = 0x62 then Some 0x08
      else if e = 0x66 then Some 0x0C
      else if e = 0x6E then Some 0x0A
      else if e = 0x72 then Some 0x0D
      else if e = 0x74 then Some 0x09
      else None)"

text \<open>
  The characters of a string after its opening quote, up to the closing quote: the string
  read and the input left.
\<close>

fun parse_chars :: "jsstring \<Rightarrow> (jsstring \<times> jsstring) option" where
  "parse_chars [] = None"
| "parse_chars (c # r) =
     (if c = 0x22 then Some ([], r)
      else if c = 0x5C then
        (case r of
           [] \<Rightarrow> None
         | e # r1 \<Rightarrow>
             if e = 0x75 then
               (case r1 of
                  h1 # h2 # h3 # h4 # r2 \<Rightarrow>
                    (case unhex4 h1 h2 h3 h4 of
                       None \<Rightarrow> None
                     | Some u \<Rightarrow> map_option (\<lambda>(s, t). (u # s, t)) (parse_chars r2))
                | _ \<Rightarrow> None)
             else
               (case unescape e of
                  None \<Rightarrow> None
                | Some u \<Rightarrow> map_option (\<lambda>(s, t). (u # s, t)) (parse_chars r1)))
      else if c < 0x20 then None
      else map_option (\<lambda>(s, t). (c # s, t)) (parse_chars r))"

subsection \<open>Reading a number token\<close>

definition is_digit :: "jschar \<Rightarrow> bool" where
  "is_digit c \<longleftrightarrow> 0x30 \<le> c \<and> c \<le> 0x39"

definition scan_int :: "jsstring \<Rightarrow> (jsstring \<times> jsstring) option" where
  "scan_int s =
     (case s of
        [] \<Rightarrow> None
      | c # r \<Rightarrow>
          if c = 0x30 then Some ([c], r)
          else if is_digit c then Some (c # takeWhile is_digit r, dropWhile is_digit r)
          else None)"

definition scan_frac :: "jsstring \<Rightarrow> (jsstring \<times> jsstring) option" where
  "scan_frac s =
     (case s of
        [] \<Rightarrow> Some ([], s)
      | c # r \<Rightarrow>
          if c = 0x2E then
            (if takeWhile is_digit r = [] then None
             else Some (c # takeWhile is_digit r, dropWhile is_digit r))
          else Some ([], s))"

definition scan_sign :: "jsstring \<Rightarrow> jsstring \<times> jsstring" where
  "scan_sign s =
     (case s of
        [] \<Rightarrow> ([], s)
      | c # r \<Rightarrow> if c = 0x2B \<or> c = 0x2D then ([c], r) else ([], s))"

definition scan_exp :: "jsstring \<Rightarrow> (jsstring \<times> jsstring) option" where
  "scan_exp s =
     (case s of
        [] \<Rightarrow> Some ([], s)
      | c # r \<Rightarrow>
          if c = 0x65 \<or> c = 0x45 then
            (case scan_sign r of
               (sg, r1) \<Rightarrow>
                 if takeWhile is_digit r1 = [] then None
                 else Some (c # sg @ takeWhile is_digit r1, dropWhile is_digit r1))
          else Some ([], s))"

definition scan_minus :: "jsstring \<Rightarrow> jsstring \<times> jsstring" where
  "scan_minus s =
     (case s of
        [] \<Rightarrow> ([], s)
      | c # r \<Rightarrow> if c = 0x2D then ([c], r) else ([], s))"

text \<open>The number token at the start of the input, and the input after it.\<close>

definition scan_number :: "jsstring \<Rightarrow> (jsstring \<times> jsstring) option" where
  "scan_number s =
     (case scan_minus s of
        (m, r0) \<Rightarrow>
          (case scan_int r0 of
             None \<Rightarrow> None
           | Some (i, r1) \<Rightarrow>
               (case scan_frac r1 of
                  None \<Rightarrow> None
                | Some (f, r2) \<Rightarrow>
                    (case scan_exp r2 of
                       None \<Rightarrow> None
                     | Some (e, r3) \<Rightarrow> Some (m @ i @ f @ e, r3)))))"

subsection \<open>Objects\<close>

definition dec_value :: "jsstring \<Rightarrow> nat" where
  "dec_value k = foldl (\<lambda>a c. 10 * a + (unat c - 48)) 0 k"

text \<open>
  An array index is the canonical decimal text of an integer below \<open>2\<^sup>3\<^sup>2 - 1\<close>. The own
  properties of an object are enumerated with the array indices first, ascending, then
  the other keys in the order they were created.
\<close>

definition is_array_index :: "jsstring \<Rightarrow> bool" where
  "is_array_index k \<longleftrightarrow>
     k \<noteq> [] \<and> list_all is_digit k \<and> (length k = 1 \<or> hd k \<noteq> 0x30) \<and> dec_value k < 4294967295"

text \<open>
  Defining the property \<open>k\<close> with value \<open>v\<close> on an object: an existing property keeps its
  place and takes the value, a new one goes to its place in the enumeration.
\<close>

fun obj_put :: "jsstring \<Rightarrow> 'v \<Rightarrow> (jsstring \<times> 'v) list \<Rightarrow> (jsstring \<times> 'v) list" where
  "obj_put k v [] = [(k, v)]"
| "obj_put k v ((k', v') # rest) =
     (if k = k' then (k', v) # rest
      else if is_array_index k \<and> (if is_array_index k' then dec_value k < dec_value k' else True)
      then (k, v) # (k', v') # rest
      else (k', v') # obj_put k v rest)"

text \<open>The object that results from defining the properties \<open>kvs\<close> in their order.\<close>

definition obj_of :: "(jsstring \<times> 'v) list \<Rightarrow> (jsstring \<times> 'v) list" where
  "obj_of kvs = foldl (\<lambda>obj kv. obj_put (fst kv) (snd kv) obj) [] kvs"

text \<open>
  A list that is the enumeration of an object: no key twice, and an array index is
  preceded only by array indices that are not greater.
\<close>

fun js_ordered :: "(jsstring \<times> 'v) list \<Rightarrow> bool" where
  "js_ordered [] = True"
| "js_ordered (kv # rest) =
     (fst kv \<notin> fst ` set rest
      \<and> list_all (\<lambda>kv'. if is_array_index (fst kv')
                        then is_array_index (fst kv) \<and> dec_value (fst kv) \<le> dec_value (fst kv')
                        else True) rest
      \<and> js_ordered rest)"

subsection \<open>JSON.parse\<close>

definition is_json_ws :: "jschar \<Rightarrow> bool" where
  "is_json_ws c \<longleftrightarrow> c = 0x09 \<or> c = 0x0A \<or> c = 0x0D \<or> c = 0x20"

definition skip_ws :: "jsstring \<Rightarrow> jsstring" where
  "skip_ws s = dropWhile is_json_ws s"

text \<open>
  A value at the start of the input, and the input after it. The first argument bounds
  the number of nested calls; \<open>JSON_parse\<close> starts with the length of the text, which is
  enough for every text (lemma \<open>parse_value_fuel\<close>).

  \<open>parse_elements\<close> reads the elements of an array after \<open>[\<close> (at least one), up to \<open>]\<close>;
  \<open>parse_members\<close> reads the members of an object after \<open>{\<close> (at least one), up to \<open>}\<close>.
\<close>

fun parse_value ::
    "(jsstring \<Rightarrow> 'n jsnum) \<Rightarrow> nat \<Rightarrow> jsstring \<Rightarrow> ('n json \<times> jsstring) option"
  and parse_elements ::
    "(jsstring \<Rightarrow> 'n jsnum) \<Rightarrow> nat \<Rightarrow> 'n json list \<Rightarrow> jsstring \<Rightarrow>
     ('n json \<times> jsstring) option"
  and parse_members ::
    "(jsstring \<Rightarrow> 'n jsnum) \<Rightarrow> nat \<Rightarrow> (jsstring \<times> 'n json) list \<Rightarrow> jsstring \<Rightarrow>
     ('n json \<times> jsstring) option"
where
  "parse_value nv 0 s = None"
| "parse_value nv (Suc f) s =
     (case s of
        [] \<Rightarrow> None
      | c # r \<Rightarrow>
          if c = 0x7B then
            (case skip_ws r of
               [] \<Rightarrow> None
             | d # r1 \<Rightarrow>
                 if d = 0x7D then Some (JObj [], r1) else parse_members nv f [] (skip_ws r))
          else if c = 0x5B then
            (case skip_ws r of
               [] \<Rightarrow> None
             | d # r1 \<Rightarrow>
                 if d = 0x5D then Some (JArr [], r1) else parse_elements nv f [] (skip_ws r))
          else if c = 0x22 then map_option (\<lambda>(str, t). (JStr str, t)) (parse_chars r)
          else if take 4 s = lit ''true'' then Some (JBool True, drop 4 s)
          else if take 5 s = lit ''false'' then Some (JBool False, drop 5 s)
          else if take 4 s = lit ''null'' then Some (JNull, drop 4 s)
          else map_option (\<lambda>(l, t). (JNum (nv l), t)) (scan_number s))"
| "parse_elements nv 0 acc s = None"
| "parse_elements nv (Suc f) acc s =
     (case parse_value nv f s of
        None \<Rightarrow> None
      | Some (v, r) \<Rightarrow>
          (case skip_ws r of
             [] \<Rightarrow> None
           | c # r1 \<Rightarrow>
               if c = 0x2C then parse_elements nv f (acc @ [v]) (skip_ws r1)
               else if c = 0x5D then Some (JArr (acc @ [v]), r1)
               else None))"
| "parse_members nv 0 acc s = None"
| "parse_members nv (Suc f) acc s =
     (case s of
        [] \<Rightarrow> None
      | q # r \<Rightarrow>
          if q = 0x22 then
            (case parse_chars r of
               None \<Rightarrow> None
             | Some (k, r1) \<Rightarrow>
                 (case skip_ws r1 of
                    [] \<Rightarrow> None
                  | d # r2 \<Rightarrow>
                      if d = 0x3A then
                        (case parse_value nv f (skip_ws r2) of
                           None \<Rightarrow> None
                         | Some (v, r3) \<Rightarrow>
                             (case skip_ws r3 of
                                [] \<Rightarrow> None
                              | e # r4 \<Rightarrow>
                                  if e = 0x2C
                                  then parse_members nv f (obj_put k v acc) (skip_ws r4)
                                  else if e = 0x7D then Some (JObj (obj_put k v acc), r4)
                                  else None))
                      else None))
          else None)"

text \<open>
  \<open>JSON.parse(text)\<close>: one value between white space and nothing else, or a
  \<open>SyntaxError\<close> is thrown.
\<close>

definition JSON_parse :: "(jsstring \<Rightarrow> 'n jsnum) \<Rightarrow> jsstring \<Rightarrow> exn + 'n json" where
  "JSON_parse nv s =
     (case parse_value nv (length s) (skip_ws s) of
        None \<Rightarrow> Inl SyntaxError
      | Some (v, r) \<Rightarrow> if skip_ws r = [] then Inr v else Inl SyntaxError)"

subsection \<open>The session list as a value, persist and load\<close>

definition sender_str :: "sender \<Rightarrow> jsstring" where
  "sender_str x = (case x of User \<Rightarrow> lit ''user'' | Ai \<Rightarrow> lit ''ai'' | System \<Rightarrow> lit ''system'')"

definition message_json :: "message \<Rightarrow> 'n json" where
  "message_json m =
     JObj [(lit ''id'', JStr (msg_id m)), (lit ''content'', JStr (content m)),
           (lit ''sender'', JStr (sender_str (sender m))),
           (lit ''timestamp'', JStr (timestamp m))]"

text \<open>
  The properties of a chat object in the order the handlers create them; \<open>pdfData\<close> is an
  own property only after an upload.
\<close>

definition chat_json :: "'n json chat \<Rightarrow> 'n json" where
  "chat_json c =
     JObj ([(lit ''id'', JStr (chat_id c)), (lit ''title'', JStr (title c)),
            (lit ''messages'', JArr (map message_json (messages c))),
            (lit ''createdAt'', JStr (createdAt c))]
           @ (case pdfData c of None \<Rightarrow> [] | Some p \<Rightarrow> [(lit ''pdfData'', p)]))"

definition chats_json :: "'n json chat list \<Rightarrow> 'n json" where
  "chats_json cs = JArr (map chat_json cs)"

text \<open>
  The effect of lines 31--33: the text stored under \<open>chatHistory\<close> after every change of
  \<open>chats\<close>.
\<close>

definition persist :: "('n \<Rightarrow> jsstring) \<Rightarrow> 'n json chat list \<Rightarrow> jsstring" where
  "persist nt cs = JSON_stringify nt (chats_json cs)"

text \<open>
  The initialiser of \<open>chats\<close> (lines 20--23). \<open>saved\<close> is the result of
  \<open>localStorage.getItem('chatHistory')\<close>: \<open>null\<close> or a string. The result is the initial
  value of \<open>chats\<close>, or the exception that leaves the initialiser.
\<close>

definition load :: "(jsstring \<Rightarrow> 'n jsnum) \<Rightarrow> jsstring option \<Rightarrow> exn + 'n json" where
  "load nv saved =
     (case saved of
        None \<Rightarrow> Inr (JArr [])
      | Some savedChats \<Rightarrow>
          if truthy_str savedChats then JSON_parse nv savedChats else Inr (JArr []))"

text \<open>A value whose objects are enumerations.\<close>

fun wf_json :: "'n json \<Rightarrow> bool" where
  "wf_json (JArr vs) = list_all wf_json vs"
| "wf_json (JObj kvs) = (js_ordered kvs \<and> list_all (\<lambda>kv. wf_json (snd kv)) kvs)"
| "wf_json v = True"

text \<open>
  A value whose numbers survive their text: each is finite, the text written for it is a
  number token, and the token is read back as the same number.
\<close>

fun nums_ok :: "('n \<Rightarrow> jsstring) \<Rightarrow> (jsstring \<Rightarrow> 'n jsnum) \<Rightarrow> 'n json \<Rightarrow> bool" where
  "nums_ok nt nv (JNum x) =
     (case x of
        Finite n \<Rightarrow> scan_number (nt n) = Some (nt n, []) \<and> nv (nt n) = Finite n
      | _ \<Rightarrow> False)"
| "nums_ok nt nv (JArr vs) = list_all (nums_ok nt nv) vs"
| "nums_ok nt nv (JObj kvs) = list_all (\<lambda>kv. nums_ok nt nv (snd kv)) kvs"
| "nums_ok nt nv v = True"

text \<open>
  What is read back from the text written for a value: a finite number is the number its
  text is read as, a number that is not finite is \<open>null\<close>, everything else is itself.
\<close>

fun read_back :: "('n \<Rightarrow> jsstring) \<Rightarrow> (jsstring \<Rightarrow> 'n jsnum) \<Rightarrow> 'n json \<Rightarrow> 'n json" where
  "read_back nt nv (JNum x) = (case x of Finite n \<Rightarrow> JNum (nv (nt n)) | _ \<Rightarrow> JNull)"
| "read_back nt nv (JArr vs) = JArr (map (read_back nt nv) vs)"
| "read_back nt nv (JObj kvs) = JObj (map (\<lambda>kv. (fst kv, read_back nt nv (snd kv))) kvs)"
| "read_back nt nv v = v"

text \<open>A value for whose finite numbers a number token is written.\<close>

fun tokens_ok :: "('n \<Rightarrow> jsstring) \<Rightarrow> 'n json \<Rightarrow> bool" where
  "tokens_ok nt (JNum x) =
     (case x of Finite n \<Rightarrow> scan_number (nt n) = Some (nt n, []) | _ \<Rightarrow> True)"
| "tokens_ok nt (JArr vs) = list_all (tokens_ok nt) vs"
| "tokens_ok nt (JObj kvs) = list_all (\<lambda>kv. tokens_ok nt (snd kv)) kvs"
| "tokens_ok nt v = True"

text \<open>
  A value whose finite numbers settle: for each a number token is written, the token is
  read as a finite number, and that number survives its own text. The platform's
  conversions do this for every finite number (negative zero is read back as zero, which
  survives).
\<close>

fun settles :: "('n \<Rightarrow> jsstring) \<Rightarrow> (jsstring \<Rightarrow> 'n jsnum) \<Rightarrow> 'n json \<Rightarrow> bool" where
  "settles nt nv (JNum x) =
     (case x of
        Finite n \<Rightarrow>
          scan_number (nt n) = Some (nt n, [])
          \<and> (case nv (nt n) of
                Finite m \<Rightarrow> scan_number (nt m) = Some (nt m, []) \<and> nv (nt m) = Finite m
              | _ \<Rightarrow> False)
      | _ \<Rightarrow> True)"
| "settles nt nv (JArr vs) = list_all (settles nt nv) vs"
| "settles nt nv (JObj kvs) = list_all (\<lambda>kv. settles nt nv (snd kv)) kvs"
| "settles nt nv v = True"

text \<open>
  A session list in which every payload is a value whose objects are enumerations and whose
  numbers survive their text.
\<close>

definition payloads_ok ::
  "('n \<Rightarrow> jsstring) \<Rightarrow> (jsstring \<Rightarrow> 'n jsnum) \<Rightarrow> 'n json chat list \<Rightarrow> bool" where
  "payloads_ok nt nv cs =
     list_all (\<lambda>c. case pdfData c of None \<Rightarrow> True | Some p \<Rightarrow> wf_json p \<and> nums_ok nt nv p) cs"

text \<open>
  A session list in which every payload is a value whose objects are enumerations and whose
  finite numbers settle; its payloads may hold numbers that are not finite.
\<close>

definition payloads_settle ::
  "('n \<Rightarrow> jsstring) \<Rightarrow> (jsstring \<Rightarrow> 'n jsnum) \<Rightarrow> 'n json chat list \<Rightarrow> bool" where
  "payloads_settle nt nv cs =
     list_all (\<lambda>c. case pdfData c of None \<Rightarrow> True | Some p \<Rightarrow> wf_json p \<and> settles nt nv p) cs"

text \<open>The session list with every payload as it is read back.\<close>

definition reloaded ::
  "('n \<Rightarrow> jsstring) \<Rightarrow> (jsstring \<Rightarrow> 'n jsnum) \<Rightarrow> 'n json chat list \<Rightarrow> 'n json chat list" where
  "reloaded nt nv cs = map (\<lambda>c. c\<lparr>pdfData := map_option (read_back nt nv) (pdfData c)\<rparr>) cs"

subsection \<open>Notions used in the proofs\<close>

text \<open>The input after a value inside an array or an object, or at the end of the text.\<close>

definition delim :: "jsstring \<Rightarrow> bool" where
  "delim r \<longleftrightarrow> r = [] \<or> hd r = 0x2C \<or> hd r = 0x5D \<or> hd r = 0x7D"

text \<open>The characters a value can start with.\<close>

definition value_start :: "jschar \<Rightarrow> bool" where
  "value_start c \<longleftrightarrow>
     c = 0x7B \<or> c = 0x5B \<or> c = 0x22 \<or> c = 0x74 \<or> c = 0x66 \<or> c = 0x6E \<or> c = 0x2D \<or> is_digit c"

text \<open>The text of one member of an object.\<close>

definition member_text :: "('n \<Rightarrow> jsstring) \<Rightarrow> jsstring \<times> 'n json \<Rightarrow> jsstring" where
  "member_text nt kv = quote (fst kv) @ 0x3A # JSON_stringify nt (snd kv)"

section \<open>Example states\<close>

text \<open>A state with one fresh session, active, and a state with two sessions.\<close>

definition ex_one :: "nat app_state" where
  "ex_one = createNewChat (lit ''c1'') (lit ''t0'') (init_state [])"

definition ex_two :: "nat app_state" where
  "ex_two = createNewChat (lit ''c2'') (lit ''t1'') ex_one"

text \<open>
  A send in flight and its answer: \<open>ex_waiting\<close> is the state at the \<open>await\<close> after \<open>A\<close> was
  sent in the fresh session, \<open>ex_answered\<close> the state after the answer \<open>Hi\<close> arrived.
\<close>

definition ex_waiting :: "nat app_state" where
  "ex_waiting =
     fst (handleSendMessage_begin (render_of ex_one) (lit ''A'') (lit ''m1'') (lit ''t1'') ex_one)"

definition ex_answered :: "nat app_state" where
  "ex_answered =
     handleSendMessage_resolve (Some (lit ''c1'')) (lit ''A'') (Inr \<lparr>answer = lit ''Hi''\<rparr>)
       (lit ''m2'') (lit ''t2'') ex_waiting"

text \<open>
  Natural numbers as the finite numbers of the examples: written in decimal, and a token of
  digits read as the natural number it denotes.
\<close>

fun ex_nt :: "nat \<Rightarrow> jsstring" where
  "ex_nt n = (if n < 10 then [word_of_nat (48 + n)]
              else ex_nt (n div 10) @ [word_of_nat (48 + n mod 10)])"

definition ex_nv :: "jsstring \<Rightarrow> nat jsnum" where
  "ex_nv l = Finite (dec_value l)"

text \<open>
  The session list after: create a session, upload \<open>a.pdf\<close> (processed to
  \<open>{chunks: 3}\<close>), send \<open>Hello\<close> (answered \<open>Hi\<close>).
\<close>

definition ex_doc :: "nat json" where
  "ex_doc = JObj [(lit ''chunks'', JNum (Finite 3))]"

definition ex_uploaded :: "nat json app_state" where
  "ex_uploaded =
     handleFileUpload \<lparr>name = lit ''a.pdf''\<rparr> (Inr ex_doc) (lit ''m1'') (lit ''t2'')
       (createNewChat (lit ''c1'') (lit ''t0'') (init_state []))"

definition ex_saved :: "nat json chat list" where
  "ex_saved =
     chats (handleSendMessage (render_of ex_uploaded) (lit ''Hello'') (Inr \<lparr>answer = lit ''Hi''\<rparr>)
              (lit ''m2'') (lit ''t3'') (lit ''m3'') (lit ''t4'') ex_uploaded)"

text \<open>A session whose payload is the number \<open>Infinity\<close>.\<close>

definition ex_inf :: "nat json chat list" where
  "ex_inf = [(newChat (lit ''c1'') (lit ''t0'')) \<lparr>pdfData := Some (JNum Infinity)\<rparr>]"

section \<open>Facts about lists and strings\<close>

lemma map_if_absent:
  assumes "\<forall>c \<in> set cs. \<not> P c"
  shows "map (\<lambda>c. if P c then f c else c) cs = cs"
  using assms by (induction cs) auto

lemma find_Some_mem:
  assumes "\<exists>c \<in> set cs. P c"
  shows "\<exists>c. find P cs = Some c \<and> P c \<and> c \<in> set cs"
  using assms by (induction cs) auto

lemma trim_empty_iff: "trim m = [] \<longleftrightarrow> (\<forall>c \<in> set m. is_ws c)"
proof
  assume "trim m = []"
  then have "dropWhile is_ws (rev (dropWhile is_ws m)) = []"
    by (simp add: trim_def)
  then have "\<forall>c \<in> set (dropWhile is_ws m). is_ws c"
    by simp
  then have "dropWhile is_ws m = []"
    by (metis hd_dropWhile list.set_sel(1))
  then show "\<forall>c \<in> set m. is_ws c"
    by simp
next
  assume "\<forall>c \<in> set m. is_ws c"
  then have "dropWhile is_ws m = []"
    by simp
  then show "trim m = []"
    by (simp add: trim_def del: dropWhile_eq_Nil_conv)
qed

lemma ex_one_eq:
  "ex_one = \<lparr>chats = [newChat (lit ''c1'') (lit ''t0'')], activeChat = Some (lit ''c1''),
             isLoading = False, toasts = []\<rparr>"
  by (simp add: ex_one_def createNewChat_def init_state_def)

lemma ex_two_eq:
  "ex_two = \<lparr>chats = [newChat (lit ''c2'') (lit ''t1''), newChat (lit ''c1'') (lit ''t0'')],
             activeChat = Some (lit ''c2''), isLoading = False, toasts = []\<rparr>"
  by (simp add: ex_two_def ex_one_eq createNewChat_def)

section \<open>Appends to a session that is not in the list\<close>

text \<open>
  C8: each of the three appends (user message, AI message, system message of an upload)
  leaves the session list as it is when no session of the list carries the identifier the
  append targets.
\<close>

theorem append_absent_noop:
  assumes "\<forall>c \<in> set cs. Some (chat_id c) \<noteq> active"
  shows "appendUser active um cs = cs
       \<and> appendAi active msg am cs = cs
       \<and> attachDocument active result f uuid now cs = cs"
  using assms by (simp add: appendUser_def appendAi_def attachDocument_def map_if_absent)

theorem append_absent_noop_witness:
  "appendUser (Some (lit ''c3'')) (userMessage (lit ''Hi'') (lit ''m1'') (lit ''t2'')) (chats ex_two)
     = chats ex_two
   \<and> appendAi (Some (lit ''c3'')) (lit ''Hi'') (aiMessage (lit ''Yo'') (lit ''m2'') (lit ''t3''))
       (chats ex_two) = chats ex_two
   \<and> attachDocument (Some (lit ''c3'')) 3 \<lparr>name = lit ''a.pdf''\<rparr> (lit ''m3'') (lit ''t4'')
       (chats ex_two) = chats ex_two"
proof -
  have h: "\<forall>c \<in> set (chats ex_two). Some (chat_id c) \<noteq> Some (lit ''c3'')"
    by (simp add: ex_two_eq newChat_def lit_def)
  show ?thesis
    using append_absent_noop [OF h] by simp
qed

section \<open>The active identifier under create and delete\<close>

lemma active_ok_create: "active_ok (createNewChat uuid now s)"
  by (simp add: active_ok_def createNewChat_def newChat_def)

lemma active_ok_delete:
  assumes "active_ok s"
  shows "active_ok (handleDeleteChat i s)"
  using assms by (auto simp: active_ok_def handleDeleteChat_def split: option.splits)

lemma active_ok_run:
  assumes "active_ok s"
  shows "active_ok (run_ops ops s)"
  using assms unfolding run_ops_def
proof (induction ops arbitrary: s)
  case Nil
  then show ?case by simp
next
  case (Cons x xs)
  have "active_ok (apply_op s x)"
    using Cons.prems by (cases x) (simp_all add: active_ok_create active_ok_delete)
  then show ?case
    using Cons.IH by simp
qed

lemma active_ok_init: "active_ok (init_state loaded)"
  by (simp add: active_ok_def init_state_def)

text \<open>
  C3: after any sequence of create and delete operations from the initial state (whatever
  list was loaded), the active identifier is unset or is the identifier of a session of
  the list. Deleting the session that is active unsets the active identifier; deleting
  any other identifier, present or not, leaves the active identifier as it was.
\<close>

theorem active_invariant:
  "active_ok (run_ops ops (init_state loaded))
   \<and> (activeChat s = Some i \<longrightarrow> activeChat (handleDeleteChat i s) = None)
   \<and> (activeChat s \<noteq> Some i \<longrightarrow> activeChat (handleDeleteChat i s) = activeChat s)"
  by (simp add: active_ok_run active_ok_init handleDeleteChat_def)

theorem active_invariant_witness:
  "active_ok (run_ops [Create (lit ''c1'') (lit ''t0''), Create (lit ''c2'') (lit ''t1''),
                       Delete (lit ''c2'')] (init_state ([] :: nat chat list)))
   \<and> activeChat ex_two = Some (lit ''c2'')
   \<and> activeChat (handleDeleteChat (lit ''c2'') ex_two) = None
   \<and> activeChat (handleDeleteChat (lit ''c1'') ex_two) = Some (lit ''c2'')"
proof -
  have a: "activeChat ex_two = Some (lit ''c2'')"
    by (simp add: ex_two_eq)
  have b: "activeChat ex_two \<noteq> Some (lit ''c1'')"
    by (simp add: ex_two_eq lit_def)
  show ?thesis
    using a b
      active_invariant [of "[Create (lit ''c1'') (lit ''t0''), Create (lit ''c2'') (lit ''t1''),
                             Delete (lit ''c2'')]" "[] :: nat chat list" ex_two "lit ''c2''"]
      active_invariant [of "[]" "[] :: nat chat list" ex_two "lit ''c1''"]
    by simp
qed

section \<open>Upload\<close>



text \<open>
  C6: when \<open>processPDF\<close> has rejected, the handler leaves the session list as it is
  (whatever the state at that moment), so no session's \<open>pdfData\<close>, title or messages
  change; it hands one notification of status \<open>error\<close> to \<open>toast\<close> and resets \<open>isLoading\<close>.
\<close>

theorem upload_failure_keeps_sessions:
  "chats (handleFileUpload f (Inl e) uuid now s) = chats s
   \<and> chats (handleFileUpload_resolve active f (Inl e) uuid now s) = chats s
   \<and> activeChat (handleFileUpload f (Inl e) uuid now s) = activeChat s
   \<and> toasts (handleFileUpload f (Inl e) uuid now s) = toasts s @ [upload_error_toast e]
   \<and> status (upload_error_toast e) = Error
   \<and> isLoading (handleFileUpload f (Inl e) uuid now s) = False"
  by (simp add: handleFileUpload_def handleFileUpload_begin_def handleFileUpload_resolve_def
      upload_error_toast_def)

section \<open>Send\<close>

lemma appendUser_find:
  "find (\<lambda>c. chat_id c = a) (appendUser (Some a) um cs) =
   map_option (\<lambda>c. c\<lparr>messages := messages c @ [um]\<rparr>) (find (\<lambda>c. chat_id c = a) cs)"
  by (induction cs) (auto simp: appendUser_def)

lemma appendAi_find:
  "find (\<lambda>c. chat_id c = a) (appendAi (Some a) msg am cs) =
   map_option (\<lambda>c. c\<lparr>messages := messages c @ [am],
                      title := (if length (messages c) = 0
                                then slice0 30 msg @ lit ''...'' else title c)\<rparr>)
     (find (\<lambda>c. chat_id c = a) cs)"
  by (induction cs) (auto simp: appendAi_def)

lemma begin_passes:
  assumes "truthy_str (trim msg)" and "truthy_active (seen_activeChat r)"
  shows "handleSendMessage_begin r msg uuid now s =
           (s\<lparr>chats := appendUser (seen_activeChat r) (userMessage msg uuid now) (seen_chats r),
              isLoading := True\<rparr>,
            Some (make_query (seen_activeChat r) msg
                    (appendUser (seen_activeChat r) (userMessage msg uuid now) (seen_chats r))))"
  using assms by (simp add: handleSendMessage_begin_def Let_def)

lemma render_of_simps:
  "seen_chats (render_of s) = chats s" "seen_activeChat (render_of s) = activeChat s"
  by (simp_all add: render_of_def)

lemma begin_returns:
  assumes "\<not> truthy_str (trim msg) \<or> \<not> truthy_active (seen_activeChat r)"
  shows "handleSendMessage_begin r msg uuid now s = (s, None)"
  using assms by (auto simp: handleSendMessage_begin_def)

lemma ex_hello: "truthy_str (trim (lit ''Hello''))"
  by (simp add: truthy_str_def trim_def lit_def is_ws_def)

lemma ex_c2: "truthy_str (lit ''c2'')"
  by (simp add: truthy_str_def lit_def)

lemma ex_blank: "\<not> truthy_str (trim (lit ''  ''))"
  by (simp add: truthy_str_def trim_def lit_def is_ws_def)

lemma ex_waiting_eq:
  "ex_waiting =
     \<lparr>chats = [(newChat (lit ''c1'') (lit ''t0''))
                 \<lparr>messages := [\<lparr>msg_id = lit ''m1'', content = lit ''A'', sender = User,
                                 timestamp = lit ''t1''\<rparr>]\<rparr>],
      activeChat = Some (lit ''c1''), isLoading = True, toasts = []\<rparr>"
proof -
  have "truthy_str (trim (lit ''A''))" and "truthy_active (seen_activeChat (render_of ex_one))"
    by (simp_all add: truthy_str_def trim_def lit_def is_ws_def truthy_active_def render_of_def
        ex_one_eq)
  then show ?thesis
    unfolding ex_waiting_def
    by (simp add: begin_passes render_of_def ex_one_eq appendUser_def newChat_def userMessage_def)
qed

lemma ex_answered_eq:
  "ex_answered =
     \<lparr>chats = [(newChat (lit ''c1'') (lit ''t0''))
                 \<lparr>messages := [\<lparr>msg_id = lit ''m1'', content = lit ''A'', sender = User,
                                 timestamp = lit ''t1''\<rparr>,
                                \<lparr>msg_id = lit ''m2'', content = lit ''Hi'', sender = Ai,
                                 timestamp = lit ''t2''\<rparr>]\<rparr>],
      activeChat = Some (lit ''c1''), isLoading = False, toasts = []\<rparr>"
  by (simp add: ex_answered_def ex_waiting_eq handleSendMessage_resolve_def appendAi_def
      newChat_def aiMessage_def)

lemma ex_stale_begin:
  "handleSendMessage_begin (render_of ex_waiting) (lit ''B'') (lit ''m3'') (lit ''t3'') ex_answered =
     (ex_answered
        \<lparr>chats := [(newChat (lit ''c1'') (lit ''t0''))
                     \<lparr>messages := [\<lparr>msg_id = lit ''m1'', content = lit ''A'', sender = User,
                                     timestamp = lit ''t1''\<rparr>,
                                    \<lparr>msg_id = lit ''m3'', content = lit ''B'', sender = User,
                                     timestamp = lit ''t3''\<rparr>]\<rparr>],
          isLoading := True\<rparr>,
      Some \<lparr>q_message = lit ''B'',
            q_chatHistory = [\<lparr>msg_id = lit ''m1'', content = lit ''A'', sender = User,
                              timestamp = lit ''t1''\<rparr>,
                             \<lparr>msg_id = lit ''m3'', content = lit ''B'', sender = User,
                              timestamp = lit ''t3''\<rparr>],
            q_context = None\<rparr>)"
proof -
  have "truthy_str (trim (lit ''B''))"
    and "truthy_active (seen_activeChat (render_of ex_waiting))"
    by (simp_all add: truthy_str_def trim_def lit_def is_ws_def truthy_active_def render_of_def
        ex_waiting_eq)
  then show ?thesis
    by (simp add: begin_passes render_of_def ex_waiting_eq appendUser_def newChat_def
        userMessage_def make_query_def)
qed

lemma ex_answered_transcript:
  "transcript ex_answered =
     [\<lparr>msg_id = lit ''m1'', content = lit ''A'', sender = User, timestamp = lit ''t1''\<rparr>,
      \<lparr>msg_id = lit ''m2'', content = lit ''Hi'', sender = Ai, timestamp = lit ''t2''\<rparr>]"
  by (simp add: transcript_def ex_answered_eq truthy_active_def truthy_str_def newChat_def)
    (simp add: lit_def)

text \<open>
  C4: for a message that is not blank (not empty after \<open>trim\<close>), sent from the render of the
  current state with an active identifier that names a session of the list, the
  transcript of the state at the \<open>await\<close> is the transcript before followed by the user
  message (the text sent, sender \<open>user\<close>), and \<open>queryLLM\<close> has been called. When the call
  rejects, the transcript stays that (it ends with the user message, no AI message is
  appended: the rejected branch leaves the list of any state as it is) and one
  notification of status \<open>error\<close> is handed to \<open>toast\<close>. When the call resolves, the AI
  message (the answer, sender \<open>ai\<close>) follows the user message.
\<close>

theorem send_appends:
  assumes "truthy_str (trim msg)"
    and "activeChat s = Some a" and "truthy_str a"
    and "a \<in> chat_id ` set (chats s)"
  shows "transcript (fst (handleSendMessage_begin (render_of s) msg u1 n1 s)) =
           transcript s @ [\<lparr>msg_id = u1, content = msg, sender = User, timestamp = n1\<rparr>]
       \<and> snd (handleSendMessage_begin (render_of s) msg u1 n1 s) \<noteq> None
       \<and> transcript (handleSendMessage (render_of s) msg (Inl e) u1 n1 u2 n2 s) =
           transcript s @ [\<lparr>msg_id = u1, content = msg, sender = User, timestamp = n1\<rparr>]
       \<and> toasts (handleSendMessage (render_of s) msg (Inl e) u1 n1 u2 n2 s) =
           toasts s @ [send_error_toast e]
       \<and> status (send_error_toast e) = Error
       \<and> chats (handleSendMessage_resolve act msg (Inl e) u2 n2 later) = chats later
       \<and> transcript (handleSendMessage (render_of s) msg (Inr r) u1 n1 u2 n2 s) =
           transcript s @ [\<lparr>msg_id = u1, content = msg, sender = User, timestamp = n1\<rparr>,
                           \<lparr>msg_id = u2, content = answer r, sender = Ai, timestamp = n2\<rparr>]"
proof -
  have act: "truthy_active (seen_activeChat (render_of s))"
    using assms(2,3) by (simp add: truthy_active_def render_of_simps)
  obtain c where c: "find (\<lambda>c. Some (chat_id c) = Some a) (chats s) = Some c"
    using find_Some_mem [of "chats s" "\<lambda>c. Some (chat_id c) = Some a"] assms(4) by auto
  note b = begin_passes [OF assms(1) act, of u1 n1 s]
  have ta: "truthy_active (Some a)"
    using assms(3) by (simp add: truthy_active_def)
  have t0: "transcript s = messages c"
    using ta c assms(2) by (simp add: transcript_def)
  have t1: "transcript (fst (handleSendMessage_begin (render_of s) msg u1 n1 s)) =
              transcript s @ [userMessage msg u1 n1]"
    using ta c assms(2) by (simp add: b t0 transcript_def appendUser_find render_of_simps)
  have t2: "transcript (handleSendMessage (render_of s) msg (Inl e) u1 n1 u2 n2 s) =
              transcript s @ [userMessage msg u1 n1]"
    using ta c assms(2)
    by (simp add: handleSendMessage_def b handleSendMessage_resolve_def t0 transcript_def
        appendUser_find render_of_simps)
  have t3: "transcript (handleSendMessage (render_of s) msg (Inr r) u1 n1 u2 n2 s) =
              transcript s @ [userMessage msg u1 n1, aiMessage (answer r) u2 n2]"
    using ta c assms(2)
    by (simp add: handleSendMessage_def b handleSendMessage_resolve_def t0 transcript_def
        appendUser_find appendAi_find render_of_simps)
  have t4: "toasts (handleSendMessage (render_of s) msg (Inl e) u1 n1 u2 n2 s) =
              toasts s @ [send_error_toast e]"
    by (simp add: handleSendMessage_def b handleSendMessage_resolve_def)
  have t5: "snd (handleSendMessage_begin (render_of s) msg u1 n1 s) \<noteq> None"
    by (simp add: b)
  have t6: "chats (handleSendMessage_resolve act msg (Inl e) u2 n2 later) = chats later"
    by (simp add: handleSendMessage_resolve_def)
  have t7: "status (send_error_toast e) = Error"
    by (simp add: send_error_toast_def)
  show ?thesis
    using t1 t2 t3 t4 t5 t6 t7 by (simp add: userMessage_def aiMessage_def)
qed

theorem send_appends_witness:
  "transcript (handleSendMessage (render_of ex_two) (lit ''Hello'') (Inl \<lparr>err_message = None\<rparr>)
                 (lit ''m1'') (lit ''t2'') (lit ''m2'') (lit ''t3'') ex_two) =
     [\<lparr>msg_id = lit ''m1'', content = lit ''Hello'', sender = User, timestamp = lit ''t2''\<rparr>]
   \<and> transcript (handleSendMessage (render_of ex_two) (lit ''Hello'') (Inr \<lparr>answer = lit ''Hi''\<rparr>)
                 (lit ''m1'') (lit ''t2'') (lit ''m2'') (lit ''t3'') ex_two) =
     [\<lparr>msg_id = lit ''m1'', content = lit ''Hello'', sender = User, timestamp = lit ''t2''\<rparr>,
      \<lparr>msg_id = lit ''m2'', content = lit ''Hi'', sender = Ai, timestamp = lit ''t3''\<rparr>]"
proof -
  have a: "activeChat ex_two = Some (lit ''c2'')"
    by (simp add: ex_two_eq)
  have m: "lit ''c2'' \<in> chat_id ` set (chats ex_two)"
    by (simp add: ex_two_eq newChat_def)
  have t: "transcript ex_two = []"
    by (simp add: transcript_def ex_two_eq newChat_def truthy_active_def ex_c2)
  show ?thesis
    using send_appends [OF ex_hello a ex_c2 m, of "lit ''m1''" "lit ''t2''"
        "\<lparr>err_message = None\<rparr>" "lit ''m2''" "lit ''t3''" None ex_two "\<lparr>answer = lit ''Hi''\<rparr>"]
    by (simp add: t)
qed

text \<open>
  A message of two spaces is not empty, yet sent with an active session present it is not
  appended: the handler returns at its guard. And a message sent from the render that is
  still waiting, after the answer has arrived, replaces the transcript by the one that
  render held followed by the message: the answer is gone.
\<close>

theorem send_not_appended:
  "lit ''  '' \<noteq> []
   \<and> activeChat ex_two = Some (lit ''c2'')
   \<and> map chat_id (chats ex_two) = [lit ''c2'', lit ''c1'']
   \<and> handleSendMessage (render_of ex_two) (lit ''  '') (Inr \<lparr>answer = lit ''Hi''\<rparr>)
        (lit ''m1'') (lit ''t2'') (lit ''m2'') (lit ''t3'') ex_two = ex_two
   \<and> transcript ex_answered =
       [\<lparr>msg_id = lit ''m1'', content = lit ''A'', sender = User, timestamp = lit ''t1''\<rparr>,
        \<lparr>msg_id = lit ''m2'', content = lit ''Hi'', sender = Ai, timestamp = lit ''t2''\<rparr>]
   \<and> transcript (fst (handleSendMessage_begin (render_of ex_waiting) (lit ''B'') (lit ''m3'')
                        (lit ''t3'') ex_answered)) =
       [\<lparr>msg_id = lit ''m1'', content = lit ''A'', sender = User, timestamp = lit ''t1''\<rparr>,
        \<lparr>msg_id = lit ''m3'', content = lit ''B'', sender = User, timestamp = lit ''t3''\<rparr>]"
proof -
  have g: "handleSendMessage_begin (render_of ex_two) (lit ''  '') (lit ''m1'') (lit ''t2'') ex_two
             = (ex_two, None)"
    using ex_blank by (intro begin_returns) simp
  have s: "transcript (fst (handleSendMessage_begin (render_of ex_waiting) (lit ''B'') (lit ''m3'')
                        (lit ''t3'') ex_answered)) =
       [\<lparr>msg_id = lit ''m1'', content = lit ''A'', sender = User, timestamp = lit ''t1''\<rparr>,
        \<lparr>msg_id = lit ''m3'', content = lit ''B'', sender = User, timestamp = lit ''t3''\<rparr>]"
    unfolding ex_stale_begin
    by (simp add: transcript_def ex_answered_eq truthy_active_def truthy_str_def newChat_def)
      (simp add: lit_def)
  have c1: "lit ''  '' \<noteq> []"
    by (simp add: lit_def)
  have c2: "activeChat ex_two = Some (lit ''c2'')"
    and c3: "map chat_id (chats ex_two) = [lit ''c2'', lit ''c1'']"
    by (simp_all add: ex_two_eq newChat_def)
  have c4: "handleSendMessage (render_of ex_two) (lit ''  '') (Inr \<lparr>answer = lit ''Hi''\<rparr>)
              (lit ''m1'') (lit ''t2'') (lit ''m2'') (lit ''t3'') ex_two = ex_two"
    by (simp add: handleSendMessage_def g)
  show ?thesis
    using c1 c2 c3 c4 ex_answered_transcript s by blast
qed

text \<open>
  C7: for a message that is not blank (not empty after \<open>trim\<close>), sent from the render of the
  current state with an active identifier that names a session of the list, \<open>queryLLM\<close>
  is called with the message, with the messages of that session (the transcript) followed
  by the user message just sent, and with the session's \<open>pdfData\<close>, which is absent
  (\<open>None\<close>) when no upload has succeeded: the call is made all the same.
\<close>

theorem query_arguments:
  assumes "truthy_str (trim msg)"
    and "activeChat s = Some a" and "truthy_str a"
    and "find (\<lambda>c. Some (chat_id c) = Some a) (chats s) = Some c"
  shows "snd (handleSendMessage_begin (render_of s) msg u1 n1 s) =
           Some \<lparr>q_message = msg,
                 q_chatHistory =
                   transcript s @ [\<lparr>msg_id = u1, content = msg, sender = User, timestamp = n1\<rparr>],
                 q_context = pdfData c\<rparr>
       \<and> transcript s = messages c"
proof -
  have act: "truthy_active (seen_activeChat (render_of s))"
    using assms(2,3) by (simp add: truthy_active_def render_of_simps)
  have ta: "truthy_active (Some a)"
    using assms(3) by (simp add: truthy_active_def)
  have t0: "transcript s = messages c"
    using ta assms(2,4) by (simp add: transcript_def)
  show ?thesis
    using assms(2,4)
    by (simp add: begin_passes [OF assms(1) act] make_query_def appendUser_find t0 render_of_simps
        userMessage_def)
qed

theorem query_arguments_witness:
  "snd (handleSendMessage_begin (render_of ex_two) (lit ''Hello'') (lit ''m1'') (lit ''t2'') ex_two) =
     Some \<lparr>q_message = lit ''Hello'',
           q_chatHistory =
             [\<lparr>msg_id = lit ''m1'', content = lit ''Hello'', sender = User,
               timestamp = lit ''t2''\<rparr>],
           q_context = None\<rparr>"
proof -
  have a: "activeChat ex_two = Some (lit ''c2'')"
    by (simp add: ex_two_eq)
  have f: "find (\<lambda>c. Some (chat_id c) = Some (lit ''c2'')) (chats ex_two) =
             Some (newChat (lit ''c2'') (lit ''t1''))"
    by (simp add: ex_two_eq newChat_def)
  show ?thesis
    using query_arguments [OF ex_hello a ex_c2 f, of "lit ''m1''" "lit ''t2''"]
    by (simp add: newChat_def)
qed

text \<open>
  A message of two spaces is not empty, yet sent with an active session present no call is
  made. And a message sent from the render that is still waiting, after the answer has
  arrived, is sent with the transcript that render held, without the answer.
\<close>

theorem query_not_full:
  "lit ''  '' \<noteq> []
   \<and> activeChat ex_two = Some (lit ''c2'')
   \<and> map chat_id (chats ex_two) = [lit ''c2'', lit ''c1'']
   \<and> snd (handleSendMessage_begin (render_of ex_two) (lit ''  '') (lit ''m1'') (lit ''t2'') ex_two)
       = None
   \<and> transcript ex_answered =
       [\<lparr>msg_id = lit ''m1'', content = lit ''A'', sender = User, timestamp = lit ''t1''\<rparr>,
        \<lparr>msg_id = lit ''m2'', content = lit ''Hi'', sender = Ai, timestamp = lit ''t2''\<rparr>]
   \<and> snd (handleSendMessage_begin (render_of ex_waiting) (lit ''B'') (lit ''m3'') (lit ''t3'')
             ex_answered) =
       Some \<lparr>q_message = lit ''B'',
             q_chatHistory =
               [\<lparr>msg_id = lit ''m1'', content = lit ''A'', sender = User, timestamp = lit ''t1''\<rparr>,
                \<lparr>msg_id = lit ''m3'', content = lit ''B'', sender = User, timestamp = lit ''t3''\<rparr>],
             q_context = None\<rparr>"
proof -
  have g: "handleSendMessage_begin (render_of ex_two) (lit ''  '') (lit ''m1'') (lit ''t2'') ex_two
             = (ex_two, None)"
    using ex_blank by (intro begin_returns) simp
  have c1: "lit ''  '' \<noteq> []"
    by (simp add: lit_def)
  have c2: "activeChat ex_two = Some (lit ''c2'')"
    and c3: "map chat_id (chats ex_two) = [lit ''c2'', lit ''c1'']"
    by (simp_all add: ex_two_eq newChat_def)
  have c4: "snd (handleSendMessage_begin (render_of ex_two) (lit ''  '') (lit ''m1'') (lit ''t2'')
                  ex_two) = None"
    by (simp add: g)
  have c5: "snd (handleSendMessage_begin (render_of ex_waiting) (lit ''B'') (lit ''m3'') (lit ''t3'')
             ex_answered) =
       Some \<lparr>q_message = lit ''B'',
             q_chatHistory =
               [\<lparr>msg_id = lit ''m1'', content = lit ''A'', sender = User, timestamp = lit ''t1''\<rparr>,
                \<lparr>msg_id = lit ''m3'', content = lit ''B'', sender = User, timestamp = lit ''t3''\<rparr>],
             q_context = None\<rparr>"
    by (simp add: ex_stale_begin)
  show ?thesis
    using c1 c2 c3 c4 c5 ex_answered_transcript by blast
qed

text \<open>
  C10: when every code unit of the message is white space (the empty message included),
  or no session is active, the send handler returns at its guard: the state, and so the
  session list, is as it was and \<open>queryLLM\<close> is not called; the same holds through
  \<open>handleSubmit\<close> of the chat window.
\<close>

theorem send_guard_noop:
  assumes "(\<forall>c \<in> set msg. is_ws c) \<or> activeChat s = None"
  shows "handleSendMessage_begin (render_of s) msg u1 n1 s = (s, None)
       \<and> handleSubmit (render_of s) msg u1 n1 s = (s, None)
       \<and> handleSendMessage (render_of s) msg outcome u1 n1 u2 n2 s = s"
proof -
  have "\<not> truthy_str (trim msg) \<or> \<not> truthy_active (seen_activeChat (render_of s))"
    using assms by (auto simp: truthy_str_def truthy_active_def trim_empty_iff render_of_simps)
  then have b: "handleSendMessage_begin (render_of s) msg u1 n1 s = (s, None)"
    by (rule begin_returns)
  then show ?thesis
    by (simp add: handleSubmit_def onSendMessage_def handleSendMessage_def)
qed

theorem send_guard_noop_witness:
  "handleSendMessage_begin (render_of ex_two) (lit ''  '') (lit ''m1'') (lit ''t2'') ex_two
     = (ex_two, None)
   \<and> handleSubmit (render_of ex_two) (lit ''  '') (lit ''m1'') (lit ''t2'') ex_two = (ex_two, None)
   \<and> handleSendMessage (render_of (init_state [])) (lit ''Hello'') (Inr \<lparr>answer = lit ''Hi''\<rparr>)
       (lit ''m1'') (lit ''t2'') (lit ''m2'') (lit ''t3'') (init_state ([] :: nat chat list))
     = init_state []"
proof -
  have w: "(\<forall>c \<in> set (lit ''  ''). is_ws c) \<or> activeChat ex_two = None"
    by (simp add: lit_def is_ws_def)
  have n: "(\<forall>c \<in> set (lit ''Hello''). is_ws c) \<or> activeChat (init_state ([] :: nat chat list)) = None"
    by (simp add: init_state_def)
  show ?thesis
    using send_guard_noop [OF w, of "lit ''m1''" "lit ''t2''"]
      send_guard_noop [OF n, of "lit ''m1''" "lit ''t2''" "Inr \<lparr>answer = lit ''Hi''\<rparr>"
        "lit ''m2''" "lit ''t3''"]
    by simp
qed

section \<open>Titles\<close>

lemma appendAi_after_appendUser:
  "map title (appendAi a msg am (appendUser a um cs)) = map title cs"
  by (induction cs) (simp_all add: appendAi_def appendUser_def)

text \<open>
  The send handler never changes a title: when the updater of lines 138--148 runs, the
  user message is already in the session's messages, so their length is not 0.
\<close>

lemma send_keeps_titles:
  "map title (chats (handleSendMessage (render_of s) msg outcome u1 n1 u2 n2 s)) =
     map title (chats s)"
proof (cases "\<not> truthy_str (trim msg) \<or> \<not> truthy_active (seen_activeChat (render_of s))")
  case True
  then have "handleSendMessage_begin (render_of s) msg u1 n1 s = (s, None)"
    by (rule begin_returns)
  then show ?thesis
    by (simp add: handleSendMessage_def)
next
  case False
  then have b: "truthy_str (trim msg)" "truthy_active (seen_activeChat (render_of s))"
    by simp_all
  show ?thesis
  proof (cases outcome)
    case (Inl e)
    then show ?thesis
      by (simp add: handleSendMessage_def begin_passes [OF b] handleSendMessage_resolve_def
          appendUser_def comp_def render_of_simps)
  next
    case (Inr r)
    then show ?thesis
      by (simp add: handleSendMessage_def begin_passes [OF b] handleSendMessage_resolve_def
          appendAi_after_appendUser render_of_simps)
  qed
qed

text \<open>
  C5: a session is created with the title \<open>New Chat\<close>, and an upload sets the title from
  the file's name; but the first message sent in a fresh session, answered, leaves the
  title \<open>New Chat\<close>.
\<close>

theorem first_send_title:
  "map title (chats ex_one) = [lit ''New Chat'']
   \<and> map title (chats (handleSendMessage (render_of ex_one) (lit ''Hello'')
                         (Inr \<lparr>answer = lit ''Hi''\<rparr>)
                         (lit ''m1'') (lit ''t2'') (lit ''m2'') (lit ''t3'') ex_one))
     = [lit ''New Chat'']
   \<and> map title (chats (handleFileUpload \<lparr>name = lit ''a.pdf''\<rparr> (Inr 3) (lit ''m1'') (lit ''t2'')
                         ex_one))
     = [lit ''PDF: a.pdf'']"
  by (simp add: send_keeps_titles)
    (simp add: ex_one_eq newChat_def handleFileUpload_def handleFileUpload_begin_def
      handleFileUpload_resolve_def attachDocument_def lit_def)

section \<open>Strings: what is written is read back\<close>

lemma unat_small:
  assumes "n < 65536"
  shows "unat (word_of_nat n :: jschar) = n"
proof -
  have "unat (word_of_nat n :: jschar) = n mod 2 ^ 16"
    by (simp only: unat_of_nat len_bit0 len_num1) simp
  then show ?thesis
    using assms by simp
qed

lemma hexval_hexdigit:
  assumes "d < 16"
  shows "hexval (hexdigit d) = Some d"
proof (cases "d < 10")
  case True
  then have u: "unat (word_of_nat (48 + d) :: jschar) = 48 + d"
    by (intro unat_small) simp
  have "(0x30::jschar) \<le> word_of_nat (48 + d) \<and> word_of_nat (48 + d) \<le> (0x39::jschar)"
    using True unfolding word_le_nat_alt u by simp
  then show ?thesis
    using True u by (simp only: hexval_def hexdigit_def if_True) simp
next
  case False
  then have u: "unat (word_of_nat (87 + d) :: jschar) = 87 + d"
    using assms by (intro unat_small) simp
  have "\<not> ((0x30::jschar) \<le> word_of_nat (87 + d) \<and> word_of_nat (87 + d) \<le> (0x39::jschar))"
    "(0x61::jschar) \<le> word_of_nat (87 + d) \<and> word_of_nat (87 + d) \<le> (0x66::jschar)"
    using False assms unfolding word_le_nat_alt u by simp_all
  then show ?thesis
    using False u by (simp only: hexval_def hexdigit_def if_True if_False) simp
qed

lemma nat_hex_digits:
  fixes n :: nat
  shows "4096 * (n div 4096) + 256 * (n div 256 mod 16) + 16 * (n div 16 mod 16) + n mod 16 = n"
proof -
  have a: "n = 16 * (n div 16) + n mod 16"
    by simp
  have d1: "n div 256 = n div 16 div 16" and d2: "n div 4096 = n div 256 div 16"
    by (simp_all add: div_mult2_eq [symmetric])
  have b: "n div 16 = 16 * (n div 256) + n div 16 mod 16"
    unfolding d1 by (simp only: mult_div_mod_eq)
  have c: "n div 256 = 16 * (n div 4096) + n div 256 mod 16"
    unfolding d2 by (simp only: mult_div_mod_eq)
  show ?thesis
    using a b c by linarith
qed

lemma unhex4_hex4:
  assumes "hex4 c = [h1, h2, h3, h4]"
  shows "unhex4 h1 h2 h3 h4 = Some c"
proof -
  have lt: "unat c < 65536"
    using unsigned_less [of c, where 'a = nat] by simp
  have d: "unat c div 4096 < 16" "unat c div 256 mod 16 < 16" "unat c div 16 mod 16 < 16"
    "unat c mod 16 < 16"
    using lt by simp_all
  have h: "h1 = hexdigit (unat c div 4096)" "h2 = hexdigit (unat c div 256 mod 16)"
    "h3 = hexdigit (unat c div 16 mod 16)" "h4 = hexdigit (unat c mod 16)"
    using assms by (simp_all add: hex4_def)
  have "unhex4 h1 h2 h3 h4 =
          Some (word_of_nat (4096 * (unat c div 4096) + 256 * (unat c div 256 mod 16)
                  + 16 * (unat c div 16 mod 16) + unat c mod 16))"
    unfolding unhex4_def h by (simp only: hexval_hexdigit d prod.case option.case)
  then show ?thesis
    by (simp only: nat_hex_digits) simp
qed

lemma parse_chars_uesc:
  "parse_chars (uesc c @ t) = map_option (\<lambda>(s, t'). (c # s, t')) (parse_chars t)"
proof -
  obtain h1 h2 h3 h4 where h: "hex4 c = [h1, h2, h3, h4]"
    by (simp add: hex4_def)
  show ?thesis
    by (simp add: uesc_def h unhex4_hex4 [OF h])
qed

lemma parse_chars_plain:
  assumes "c \<noteq> 0x22" and "c \<noteq> 0x5C" and "\<not> c < 0x20"
  shows "parse_chars (c # t) = map_option (\<lambda>(s, t'). (c # s, t')) (parse_chars t)"
  using assms by simp

lemma parse_chars_esc1:
  "parse_chars (esc1 c @ t) = map_option (\<lambda>(s, t'). (c # s, t')) (parse_chars t)"
proof (cases "c = 0x08 \<or> c = 0x09 \<or> c = 0x0A \<or> c = 0x0C \<or> c = 0x0D \<or> c = 0x22 \<or> c = 0x5C")
  case True
  then show ?thesis
    by (auto simp: esc1_def unescape_def)
next
  case False
  then show ?thesis
    by (cases "c < 0x20") (simp_all add: esc1_def parse_chars_uesc)
qed

lemma surrogate_plain:
  assumes "is_high c \<or> is_low c"
  shows "c \<noteq> 0x22" and "c \<noteq> 0x5C" and "\<not> c < 0x20"
proof -
  have ge: "0xD800 \<le> c"
    using assms order_trans [of "0xD800" "0xDC00" c] by (auto simp: is_high_def is_low_def)
  show "c \<noteq> 0x22" and "c \<noteq> 0x5C"
    using ge by auto
  show "\<not> c < 0x20"
    using order_le_less_trans [OF ge, of "0x20"] by auto
qed

lemma parse_chars_surrogate:
  assumes "is_high c \<or> is_low c"
  shows "parse_chars (c # t) = map_option (\<lambda>(s, t'). (c # s, t')) (parse_chars t)"
  using surrogate_plain [OF assms] by (rule parse_chars_plain)

lemma parse_quote_chars: "parse_chars (quote_chars s @ 0x22 # r) = Some (s, r)"
proof (induction s rule: quote_chars.induct)
  case 1
  show ?case by simp
next
  case (2 c)
  show ?case
    by (cases "is_high c \<or> is_low c") (simp_all add: parse_chars_uesc parse_chars_esc1)
next
  case (3 c d ds)
  show ?case
  proof (cases "is_high c \<and> is_low d")
    case True
    then have "parse_chars (quote_chars ds @ 0x22 # r) = Some (ds, r)"
      using "3.IH"(1) by simp
    then show ?thesis
      using True by (simp add: parse_chars_surrogate del: parse_chars.simps)
  next
    case False
    show ?thesis
    proof (cases "is_high c \<or> is_low c")
      case True
      have q: "quote_chars (c # d # ds) = uesc c @ quote_chars (d # ds)"
        using False True by auto
      have "parse_chars (quote_chars (d # ds) @ 0x22 # r) = Some (d # ds, r)"
        using False True "3.IH"(2) by simp
      then show ?thesis
        by (simp only: q append_assoc parse_chars_uesc) simp
    next
      case nsur: False
      have q: "quote_chars (c # d # ds) = esc1 c @ quote_chars (d # ds)"
        using False nsur by auto
      have "parse_chars (quote_chars (d # ds) @ 0x22 # r) = Some (d # ds, r)"
        using False nsur "3.IH"(3) by simp
      then show ?thesis
        by (simp only: q append_assoc parse_chars_esc1) simp
    qed
  qed
qed

lemma tw_stop:
  assumes "r = [] \<or> \<not> P (hd r)"
  shows "takeWhile P (xs @ r) = takeWhile P xs" and "dropWhile P (xs @ r) = dropWhile P xs @ r"
  using assms by (induction xs) (auto simp: takeWhile_eq_Nil_iff dropWhile_eq_self_iff)

section \<open>Number tokens\<close>

lemma delim_not_digit:
  assumes "delim r"
  shows "r = [] \<or> \<not> is_digit (hd r)"
  using assms by (auto simp: delim_def is_digit_def)

lemma digits_app:
  assumes "delim r"
  shows "takeWhile is_digit (xs @ r) = takeWhile is_digit xs"
    and "dropWhile is_digit (xs @ r) = dropWhile is_digit xs @ r"
  using tw_stop [where P = is_digit and r = r, OF delim_not_digit [OF assms]] by simp_all

lemma scan_minus_app:
  assumes "delim r"
  shows "scan_minus (s @ r) = (fst (scan_minus s), snd (scan_minus s) @ r)"
proof (cases s)
  case Nil
  then show ?thesis
    using assms by (cases r) (auto simp: scan_minus_def delim_def)
next
  case (Cons c s')
  then show ?thesis
    by (simp add: scan_minus_def)
qed

lemma scan_sign_app:
  assumes "delim r"
  shows "scan_sign (s @ r) = (fst (scan_sign s), snd (scan_sign s) @ r)"
proof (cases s)
  case Nil
  then show ?thesis
    using assms by (cases r) (auto simp: scan_sign_def delim_def)
next
  case (Cons c s')
  then show ?thesis
    by (simp add: scan_sign_def)
qed

lemma scan_int_app:
  assumes "scan_int s = Some (i, t)" and "delim r"
  shows "scan_int (s @ r) = Some (i, t @ r)"
proof (cases s)
  case Nil
  then show ?thesis
    using assms(1) by (simp add: scan_int_def)
next
  case (Cons c s')
  then show ?thesis
    using assms(1) digits_app [OF assms(2), of s']
    by (auto simp: scan_int_def split: if_splits)
qed

lemma scan_frac_app:
  assumes "scan_frac s = Some (f, t)" and "delim r"
  shows "scan_frac (s @ r) = Some (f, t @ r)"
proof (cases s)
  case Nil
  then show ?thesis
    using assms by (cases r) (auto simp: scan_frac_def delim_def)
next
  case (Cons c s')
  then show ?thesis
    using assms(1) digits_app [OF assms(2), of s']
    by (auto simp: scan_frac_def split: if_splits)
qed

lemma scan_exp_app:
  assumes "scan_exp s = Some (e, t)" and "delim r"
  shows "scan_exp (s @ r) = Some (e, t @ r)"
proof (cases s)
  case Nil
  then show ?thesis
    using assms by (cases r) (auto simp: scan_exp_def delim_def)
next
  case (Cons c s')
  show ?thesis
  proof (cases "c = 0x65 \<or> c = 0x45")
    case True
    obtain sg r1 where sg: "scan_sign s' = (sg, r1)"
      by (cases "scan_sign s'") auto
    have sg': "scan_sign (s' @ r) = (sg, r1 @ r)"
      using scan_sign_app [OF assms(2), of s'] sg by simp
    show ?thesis
      using assms(1) True Cons sg sg' digits_app [OF assms(2), of r1]
      by (auto simp: scan_exp_def split: if_splits)
  next
    case False
    then show ?thesis
      using assms(1) Cons by (auto simp: scan_exp_def)
  qed
qed

lemma scan_number_app:
  assumes "scan_number s = Some (l, t)" and "delim r"
  shows "scan_number (s @ r) = Some (l, t @ r)"
proof -
  obtain m r0 where m: "scan_minus s = (m, r0)"
    by (cases "scan_minus s") auto
  obtain i r1 where i: "scan_int r0 = Some (i, r1)"
    using assms(1) m by (auto simp: scan_number_def split: option.splits)
  obtain f r2 where f: "scan_frac r1 = Some (f, r2)"
    using assms(1) m i by (auto simp: scan_number_def split: option.splits)
  obtain e r3 where e: "scan_exp r2 = Some (e, r3)"
    using assms(1) m i f by (auto simp: scan_number_def split: option.splits)
  have l: "l = m @ i @ f @ e" "t = r3"
    using assms(1) m i f e by (simp_all add: scan_number_def)
  have "scan_minus (s @ r) = (m, r0 @ r)"
    using scan_minus_app [OF assms(2), of s] m by simp
  then show ?thesis
    using scan_int_app [OF i assms(2)] scan_frac_app [OF f assms(2)]
      scan_exp_app [OF e assms(2)] l
    by (simp add: scan_number_def)
qed

lemma scan_number_hd:
  assumes "scan_number s = Some (l, t)"
  shows "s \<noteq> [] \<and> (hd s = 0x2D \<or> is_digit (hd s))"
proof -
  obtain m r0 where m: "scan_minus s = (m, r0)"
    by (cases "scan_minus s") auto
  obtain i r1 where i: "scan_int r0 = Some (i, r1)"
    using assms(1) m by (auto simp: scan_number_def split: option.splits)
  have "r0 \<noteq> [] \<and> is_digit (hd r0)"
    using i by (cases r0) (auto simp: scan_int_def is_digit_def split: if_splits)
  then show ?thesis
    using m by (cases s) (auto simp: scan_minus_def split: if_splits)
qed

section \<open>Objects as enumerations\<close>

lemma obj_put_keys: "fst ` set (obj_put k v obj) = insert k (fst ` set obj)"
proof (induction obj)
  case Nil
  show ?case by simp
next
  case (Cons kv obj)
  obtain k' v' where kv: "kv = (k', v')"
    by (cases kv) auto
  show ?case
    using Cons.IH unfolding kv by (simp add: insert_commute)
qed

lemma obj_put_ordered:
  assumes "js_ordered obj"
  shows "js_ordered (obj_put k v obj)"
  using assms
proof (induction obj)
  case Nil
  show ?case by simp
next
  case (Cons kv obj)
  obtain k' v' where kv: "kv = (k', v')"
    by (cases kv) auto
  have fresh: "k' \<notin> fst ` set obj"
    and later: "\<forall>x \<in> set obj. is_array_index (fst x) \<longrightarrow>
                  is_array_index k' \<and> dec_value k' \<le> dec_value (fst x)"
    and ord: "js_ordered obj"
    using Cons.prems kv by (auto simp: list_all_iff)
  show ?case
  proof (cases "k = k'")
    case True
    then show ?thesis
      using fresh later ord kv by (auto simp: list_all_iff)
  next
    case False
    show ?thesis
    proof (cases "is_array_index k \<and> (if is_array_index k' then dec_value k < dec_value k' else True)")
      case before: True
      have "k \<notin> fst ` set obj"
      proof
        assume "k \<in> fst ` set obj"
        then obtain x where "x \<in> set obj" and "fst x = k"
          by auto
        then have "is_array_index k' \<and> dec_value k' \<le> dec_value k"
          using later before by auto
        then show False
          using before by simp
      qed
      moreover have "\<forall>x \<in> set obj. is_array_index (fst x) \<longrightarrow> dec_value k \<le> dec_value (fst x)"
        using later before by (auto split: if_splits)
      ultimately show ?thesis
        using False before fresh later ord kv by (auto simp: list_all_iff split: if_splits)
    next
      case after: False
      have "obj_put k v (kv # obj) = (k', v') # obj_put k v obj"
        using False after kv by auto
      moreover have "k' \<notin> fst ` set (obj_put k v obj)"
        using False fresh by (simp add: obj_put_keys)
      moreover have "\<forall>x \<in> set (obj_put k v obj). is_array_index (fst x) \<longrightarrow>
                       is_array_index k' \<and> dec_value k' \<le> dec_value (fst x)"
      proof (intro ballI impI)
        fix x
        assume x: "x \<in> set (obj_put k v obj)" and i: "is_array_index (fst x)"
        have "fst x = k \<or> fst x \<in> fst ` set obj"
          using x obj_put_keys [of k v obj] by (metis image_eqI insertE)
        then show "is_array_index k' \<and> dec_value k' \<le> dec_value (fst x)"
        proof
          assume "fst x = k"
          then show ?thesis
            using i after by (auto split: if_splits)
        next
          assume "fst x \<in> fst ` set obj"
          then show ?thesis
            using later i by auto
        qed
      qed
      ultimately show ?thesis
        using Cons.IH [OF ord] by (simp add: list_all_iff)
    qed
  qed
qed

lemma foldl_obj_put_ordered:
  assumes "js_ordered acc"
  shows "js_ordered (foldl (\<lambda>obj kv. obj_put (fst kv) (snd kv) obj) acc kvs)"
  using assms by (induction kvs arbitrary: acc) (simp_all add: obj_put_ordered)

lemma obj_put_last:
  assumes "js_ordered (obj @ [(k, v)])"
  shows "obj_put k v obj = obj @ [(k, v)]"
  using assms
proof (induction obj)
  case Nil
  show ?case by simp
next
  case (Cons kv obj)
  obtain k' v' where kv: "kv = (k', v')"
    by (cases kv) auto
  have "k \<noteq> k'" and "is_array_index k \<longrightarrow> is_array_index k' \<and> dec_value k' \<le> dec_value k"
    and "js_ordered (obj @ [(k, v)])"
    using Cons.prems kv by (auto simp: list_all_iff)
  then show ?case
    using Cons.IH kv by auto
qed

lemma js_ordered_prefix:
  assumes "js_ordered (xs @ ys)"
  shows "js_ordered xs"
  using assms
proof (induction xs)
  case Nil
  show ?case by simp
next
  case (Cons kv xs)
  have "list_all (\<lambda>kv'. if is_array_index (fst kv')
                        then is_array_index (fst kv) \<and> dec_value (fst kv) \<le> dec_value (fst kv')
                        else True) xs"
    using Cons.prems by simp
  moreover have "fst kv \<notin> fst ` set xs" and "js_ordered (xs @ ys)"
    using Cons.prems by auto
  ultimately show ?case
    using Cons.IH by simp
qed

lemma foldl_obj_put_append:
  assumes "js_ordered (acc @ kvs)"
  shows "foldl (\<lambda>obj kv. obj_put (fst kv) (snd kv) obj) acc kvs = acc @ kvs"
  using assms
proof (induction kvs arbitrary: acc)
  case Nil
  show ?case by simp
next
  case (Cons kv kvs)
  have "js_ordered ((acc @ [kv]) @ kvs)"
    using Cons.prems by simp
  then have "js_ordered (acc @ [(fst kv, snd kv)])"
    using js_ordered_prefix [of "acc @ [kv]" kvs] by simp
  then have "obj_put (fst kv) (snd kv) acc = acc @ [kv]"
    using obj_put_last [of acc "fst kv" "snd kv"] by simp
  then show ?case
    using Cons.IH [of "acc @ [kv]"] Cons.prems by simp
qed

text \<open>
  Defining the members of an enumeration in their order gives the enumeration back, and
  only enumerations are given back.
\<close>

lemma obj_of_iff: "obj_of kvs = kvs \<longleftrightarrow> js_ordered kvs"
proof
  assume "obj_of kvs = kvs"
  then show "js_ordered kvs"
    using foldl_obj_put_ordered [of "[]" kvs] by (simp add: obj_of_def)
next
  assume "js_ordered kvs"
  then show "obj_of kvs = kvs"
    using foldl_obj_put_append [of "[]" kvs] by (simp add: obj_of_def)
qed

section \<open>Values: what is written is read back\<close>

lemma value_start_not:
  assumes "value_start c"
  shows "\<not> is_json_ws c" and "c \<noteq> 0x5D" and "c \<noteq> 0x7D" and "c \<noteq> 0x2C"
  using assms by (auto simp: value_start_def is_json_ws_def is_digit_def)

lemma skip_ws_Cons:
  assumes "\<not> is_json_ws c"
  shows "skip_ws (c # t) = c # t"
  using assms by (simp add: skip_ws_def)

lemma skip_ws_punct:
  "skip_ws (0x2C # t) = 0x2C # t" "skip_ws (0x5D # t) = 0x5D # t"
  "skip_ws (0x7D # t) = 0x7D # t" "skip_ws (0x3A # t) = 0x3A # t"
  by (simp_all add: skip_ws_def is_json_ws_def)

lemma skip_ws_start:
  assumes "s \<noteq> []" and "value_start (hd s)"
  shows "skip_ws (s @ r) = s @ r"
  using assms value_start_not(1) [of "hd s"] by (cases s) (simp_all add: skip_ws_def)

lemma stringify_start:
  assumes "tokens_ok nt v"
  shows "JSON_stringify nt v \<noteq> [] \<and> value_start (hd (JSON_stringify nt v))"
proof (cases v)
  case (JNum x)
  show ?thesis
  proof (cases x)
    case (Finite n)
    then have "scan_number (nt n) = Some (nt n, [])"
      using assms JNum by simp
    then show ?thesis
      using scan_number_hd [of "nt n"] JNum Finite by (auto simp: value_start_def)
  qed (simp_all add: JNum value_start_def lit_def)
qed (auto simp: value_start_def lit_def quote_def)

lemma join_comma_Cons:
  assumes "ys \<noteq> []"
  shows "join_comma (x # ys) = x @ 0x2C # join_comma ys"
  using assms by (cases ys) simp_all

lemma join_comma_hd:
  assumes "xs \<noteq> []" and "hd xs \<noteq> []"
  shows "join_comma xs \<noteq> [] \<and> hd (join_comma xs) = hd (hd xs)"
proof (cases xs)
  case Nil
  then show ?thesis using assms by simp
next
  case (Cons x ys)
  then show ?thesis
    using assms by (cases ys) simp_all
qed

lemma parse_value_array:
  "parse_value nv (Suc f) (0x5B # t) =
     (case skip_ws t of
        [] \<Rightarrow> None
      | d # r1 \<Rightarrow> if d = 0x5D then Some (JArr [], r1) else parse_elements nv f [] (skip_ws t))"
  by simp

lemma parse_value_object:
  "parse_value nv (Suc f) (0x7B # t) =
     (case skip_ws t of
        [] \<Rightarrow> None
      | d # r1 \<Rightarrow> if d = 0x7D then Some (JObj [], r1) else parse_members nv f [] (skip_ws t))"
  by simp

lemma parse_value_string:
  "parse_value nv (Suc f) (0x22 # t) = map_option (\<lambda>(str, t). (JStr str, t)) (parse_chars t)"
  by simp

lemma parse_value_number:
  assumes "c = 0x2D \<or> is_digit c"
  shows "parse_value nv (Suc f) (c # t) =
           map_option (\<lambda>(l, t). (JNum (nv l), t)) (scan_number (c # t))"
proof -
  have "c \<noteq> 0x7B" "c \<noteq> 0x5B" "c \<noteq> 0x22" "c \<noteq> 0x74" "c \<noteq> 0x66" "c \<noteq> 0x6E"
    using assms by (auto simp: is_digit_def)
  then show ?thesis
    by (simp add: lit_def)
qed

lemma parse_value_literals:
  "parse_value nv (Suc f) (lit ''null'' @ r) = Some (JNull, r)"
  "parse_value nv (Suc f) (lit ''true'' @ r) = Some (JBool True, r)"
  "parse_value nv (Suc f) (lit ''false'' @ r) = Some (JBool False, r)"
  by (simp_all add: lit_def)

lemma parse_elements_step:
  assumes "parse_value nv f s = Some (v, c # r1)" and "\<not> is_json_ws c"
  shows "parse_elements nv (Suc f) acc s =
           (if c = 0x2C then parse_elements nv f (acc @ [v]) (skip_ws r1)
            else if c = 0x5D then Some (JArr (acc @ [v]), r1)
            else None)"
  using assms by (simp add: skip_ws_Cons)

lemma parse_members_step:
  assumes "parse_chars t = Some (k, 0x3A # r2)"
    and "parse_value nv f (skip_ws r2) = Some (v, e # r4)" and "\<not> is_json_ws e"
  shows "parse_members nv (Suc f) acc (0x22 # t) =
           (if e = 0x2C then parse_members nv f (obj_put k v acc) (skip_ws r4)
            else if e = 0x7D then Some (JObj (obj_put k v acc), r4)
            else None)"
  using assms by (simp add: skip_ws_Cons skip_ws_punct)

lemma delim_punct: "delim (0x2C # t)" "delim (0x5D # t)" "delim (0x7D # t)" "delim []"
  by (simp_all add: delim_def)

lemma elements_roundtrip:
  assumes "vs \<noteq> []"
    and "\<And>v f r. v \<in> set vs \<Longrightarrow> delim r \<Longrightarrow> length (JSON_stringify nt v) \<le> f \<Longrightarrow>
           parse_value nv f (JSON_stringify nt v @ r) = Some (read_back nt nv v, r)"
    and "list_all (tokens_ok nt) vs"
    and "length (join_comma (map (JSON_stringify nt) vs)) < f"
  shows "parse_elements nv f acc (join_comma (map (JSON_stringify nt) vs) @ 0x5D # r) =
           Some (JArr (acc @ map (read_back nt nv) vs), r)"
  using assms
proof (induction vs arbitrary: f acc rule: list_nonempty_induct)
  case (single v)
  obtain f' where f: "f = Suc f'" and le: "length (JSON_stringify nt v) \<le> f'"
    using single.prems(3) by (cases f) simp_all
  have "parse_value nv f' (JSON_stringify nt v @ 0x5D # r) = Some (read_back nt nv v, 0x5D # r)"
    using single.prems(1) [of v "0x5D # r" f'] le by (simp add: delim_punct)
  then have "parse_elements nv (Suc f') acc (JSON_stringify nt v @ 0x5D # r) =
               Some (JArr (acc @ [read_back nt nv v]), r)"
    by (subst parse_elements_step [where c = "0x5D" and v = "read_back nt nv v" and ?r1.0 = r])
      (simp_all add: is_json_ws_def)
  then show ?case
    unfolding f by (simp del: parse_elements.simps parse_value.simps)
next
  case (cons v vs)
  let ?rest = "join_comma (map (JSON_stringify nt) vs)"
  have j: "join_comma (map (JSON_stringify nt) (v # vs)) = JSON_stringify nt v @ 0x2C # ?rest"
    using cons.hyps by (simp add: join_comma_Cons)
  obtain f' where f: "f = Suc f'" and le: "length (JSON_stringify nt v) \<le> f'"
    and lr: "length ?rest < f'"
    using cons.prems(3) unfolding j by (cases f) simp_all
  have pv: "parse_value nv f' (JSON_stringify nt v @ 0x2C # ?rest @ 0x5D # r) =
              Some (read_back nt nv v, 0x2C # ?rest @ 0x5D # r)"
    using cons.prems(1) [of v "0x2C # ?rest @ 0x5D # r" f'] le by (simp add: delim_punct)
  have st: "JSON_stringify nt (hd vs) \<noteq> [] \<and> value_start (hd (JSON_stringify nt (hd vs)))"
    using cons.prems(2) cons.hyps stringify_start [of nt "hd vs"] by (cases vs) simp_all
  have "?rest \<noteq> [] \<and> hd ?rest = hd (JSON_stringify nt (hd vs))"
    using join_comma_hd [of "map (JSON_stringify nt) vs"] cons.hyps st by (simp add: hd_map)
  then have sk: "skip_ws (?rest @ 0x5D # r) = ?rest @ 0x5D # r"
    using st by (intro skip_ws_start) simp_all
  have ih: "parse_elements nv f' (acc @ [read_back nt nv v]) (?rest @ 0x5D # r) =
              Some (JArr ((acc @ [read_back nt nv v]) @ map (read_back nt nv) vs), r)"
    using cons.prems(1,2) lr by (intro cons.IH) simp_all
  have "parse_elements nv (Suc f') acc (JSON_stringify nt v @ 0x2C # ?rest @ 0x5D # r) =
          Some (JArr (acc @ read_back nt nv v # map (read_back nt nv) vs), r)"
    by (subst parse_elements_step [OF pv]) (simp_all add: is_json_ws_def sk ih)
  then show ?case
    unfolding f j by (simp del: parse_elements.simps parse_value.simps)
qed

lemma member_text_eq:
  "member_text nt (k, v) @ t = 0x22 # quote_chars k @ 0x22 # 0x3A # JSON_stringify nt v @ t"
  by (simp add: member_text_def quote_def)

lemma member_text_hd: "member_text nt kv \<noteq> [] \<and> hd (member_text nt kv) = 0x22"
  by (simp add: member_text_def quote_def)

lemma member_roundtrip_step:
  assumes "\<And>f r. delim r \<Longrightarrow> length (JSON_stringify nt v) \<le> f \<Longrightarrow>
             parse_value nv f (JSON_stringify nt v @ r) = Some (w, r)"
    and "tokens_ok nt v"
    and "length (member_text nt (k, v)) \<le> f"
    and "e = 0x2C \<or> e = 0x7D"
  shows "parse_members nv (Suc f) acc (member_text nt (k, v) @ e # t) =
           (if e = 0x2C then parse_members nv f (obj_put k w acc) (skip_ws t)
            else Some (JObj (obj_put k w acc), t))"
proof -
  have le: "length (JSON_stringify nt v) \<le> f"
    using assms(3) by (simp add: member_text_def)
  have d: "delim (e # t)" and nw: "\<not> is_json_ws e"
    using assms(4) by (auto simp: delim_def is_json_ws_def)
  have pc: "parse_chars (quote_chars k @ 0x22 # 0x3A # JSON_stringify nt v @ e # t) =
              Some (k, 0x3A # JSON_stringify nt v @ e # t)"
    by (rule parse_quote_chars)
  have sk: "skip_ws (JSON_stringify nt v @ e # t) = JSON_stringify nt v @ e # t"
    using stringify_start [OF assms(2)] by (intro skip_ws_start) simp_all
  have pv: "parse_value nv f (skip_ws (JSON_stringify nt v @ e # t)) = Some (w, e # t)"
    unfolding sk using assms(1) [OF d le] .
  show ?thesis
    unfolding member_text_eq
    by (subst parse_members_step [OF pc pv nw]) (use assms(4) in auto)
qed

lemma members_roundtrip:
  assumes "kvs \<noteq> []"
    and "\<And>kv f r. kv \<in> set kvs \<Longrightarrow> delim r \<Longrightarrow> length (JSON_stringify nt (snd kv)) \<le> f \<Longrightarrow>
           parse_value nv f (JSON_stringify nt (snd kv) @ r) = Some (read_back nt nv (snd kv), r)"
    and "list_all (\<lambda>kv. tokens_ok nt (snd kv)) kvs"
    and "length (join_comma (map (member_text nt) kvs)) < f"
  shows "parse_members nv f acc (join_comma (map (member_text nt) kvs) @ 0x7D # r) =
           Some (JObj (foldl (\<lambda>obj kv. obj_put (fst kv) (snd kv) obj) acc
                         (map (\<lambda>kv. (fst kv, read_back nt nv (snd kv))) kvs)), r)"
  using assms
proof (induction kvs arbitrary: f acc rule: list_nonempty_induct)
  case (single kv)
  obtain k v where kv: "kv = (k, v)"
    by (cases kv) auto
  obtain f' where f: "f = Suc f'" and le: "length (member_text nt (k, v)) \<le> f'"
    using single.prems(3) kv by (cases f) simp_all
  have "parse_members nv (Suc f') acc (member_text nt (k, v) @ 0x7D # r) =
          Some (JObj (obj_put k (read_back nt nv v) acc), r)"
    using single.prems(1) [of kv] single.prems(2) kv le
    by (subst member_roundtrip_step [where e = "0x7D" and w = "read_back nt nv v"]) simp_all
  then show ?case
    unfolding f kv by (simp del: parse_members.simps parse_value.simps)
next
  case (cons kv kvs)
  obtain k v where kv: "kv = (k, v)"
    by (cases kv) auto
  let ?rest = "join_comma (map (member_text nt) kvs)"
  let ?seen = "map (\<lambda>kv. (fst kv, read_back nt nv (snd kv))) kvs"
  have j: "join_comma (map (member_text nt) (kv # kvs)) = member_text nt (k, v) @ 0x2C # ?rest"
    using cons.hyps kv by (simp add: join_comma_Cons)
  obtain f' where f: "f = Suc f'" and le: "length (member_text nt (k, v)) \<le> f'"
    and lr: "length ?rest < f'"
    using cons.prems(3) unfolding j by (cases f) simp_all
  have "?rest \<noteq> [] \<and> hd ?rest = 0x22"
    using join_comma_hd [of "map (member_text nt) kvs"] cons.hyps member_text_hd [of nt "hd kvs"]
    by (simp add: hd_map)
  then have sk: "skip_ws (?rest @ 0x7D # r) = ?rest @ 0x7D # r"
    by (intro skip_ws_start) (simp_all add: value_start_def)
  have ih: "parse_members nv f' (obj_put k (read_back nt nv v) acc) (?rest @ 0x7D # r) =
              Some (JObj (foldl (\<lambda>obj kv. obj_put (fst kv) (snd kv) obj)
                            (obj_put k (read_back nt nv v) acc) ?seen), r)"
    using cons.prems(1,2) lr by (intro cons.IH) simp_all
  have "parse_members nv (Suc f') acc (member_text nt (k, v) @ 0x2C # ?rest @ 0x7D # r) =
          Some (JObj (foldl (\<lambda>obj kv. obj_put (fst kv) (snd kv) obj)
                        (obj_put k (read_back nt nv v) acc) ?seen), r)"
    using cons.prems(1) [of kv] cons.prems(2) kv le
    by (subst member_roundtrip_step [where e = "0x2C" and w = "read_back nt nv v"])
      (simp_all add: sk ih)
  then show ?case
    using j unfolding f kv by (simp del: parse_members.simps parse_value.simps)
qed

lemma js_ordered_map:
  "js_ordered (map (\<lambda>kv. (fst kv, h (snd kv))) kvs) = js_ordered kvs"
proof (induction kvs)
  case Nil
  show ?case by simp
next
  case (Cons kv kvs)
  have "fst ` set (map (\<lambda>kv. (fst kv, h (snd kv))) kvs) = fst ` set kvs"
    by (simp add: image_image)
  then show ?case
    using Cons.IH by (simp add: list_all_iff image_image)
qed

lemma stringify_obj:
  "JSON_stringify nt (JObj kvs) = 0x7B # join_comma (map (member_text nt) kvs) @ [0x7D]"
proof -
  have "member_text nt = (\<lambda>kv. quote (fst kv) @ 0x3A # JSON_stringify nt (snd kv))"
    by (rule ext) (simp add: member_text_def)
  then show ?thesis
    by simp
qed

lemma roundtrip_value:
  assumes "wf_json v" and "tokens_ok nt v" and "delim r"
    and "length (JSON_stringify nt v) \<le> f"
  shows "parse_value nv f (JSON_stringify nt v @ r) = Some (read_back nt nv v, r)"
  using assms
proof (induction v arbitrary: f r)
  case JNull
  then obtain f' where "f = Suc f'"
    by (cases f) (simp_all add: lit_def)
  then show ?case
    by (simp add: parse_value_literals del: parse_value.simps)
next
  case (JBool b)
  then obtain f' where "f = Suc f'"
    by (cases f) (simp_all add: lit_def split: if_splits)
  then show ?case
    by (simp add: parse_value_literals del: parse_value.simps)
next
  case (JNum x)
  show ?case
  proof (cases x)
    case (Finite n)
    have sc: "scan_number (nt n) = Some (nt n, [])"
      using JNum.prems(2) Finite by simp
    obtain c t where ct: "nt n = c # t" and c: "c = 0x2D \<or> is_digit c"
      using scan_number_hd [OF sc] by (cases "nt n") auto
    obtain f' where f: "f = Suc f'"
      using JNum.prems(4) ct Finite by (cases f) simp_all
    have "scan_number (nt n @ r) = Some (nt n, r)"
      using scan_number_app [OF sc JNum.prems(3)] by simp
    then have "parse_value nv (Suc f') (c # t @ r) = Some (JNum (nv (c # t)), r)"
      by (simp add: parse_value_number [OF c] ct del: parse_value.simps)
    then show ?thesis
      by (simp add: f ct Finite del: parse_value.simps)
  next
    case NaN
    then obtain f' where "f = Suc f'"
      using JNum.prems(4) by (cases f) (simp_all add: lit_def)
    then show ?thesis
      using NaN by (simp add: parse_value_literals del: parse_value.simps)
  next
    case Infinity
    then obtain f' where "f = Suc f'"
      using JNum.prems(4) by (cases f) (simp_all add: lit_def)
    then show ?thesis
      using Infinity by (simp add: parse_value_literals del: parse_value.simps)
  next
    case NegInfinity
    then obtain f' where "f = Suc f'"
      using JNum.prems(4) by (cases f) (simp_all add: lit_def)
    then show ?thesis
      using NegInfinity by (simp add: parse_value_literals del: parse_value.simps)
  qed
next
  case (JStr s)
  then obtain f' where f: "f = Suc f'"
    by (cases f) (simp_all add: quote_def)
  show ?case
    by (simp add: f quote_def parse_value_string parse_quote_chars del: parse_value.simps)
next
  case (JArr vs)
  let ?j = "join_comma (map (JSON_stringify nt) vs)"
  obtain f' where f: "f = Suc f'" and lj: "length ?j < f'"
    using JArr.prems(4) by (cases f) simp_all
  show ?case
  proof (cases "vs = []")
    case True
    then show ?thesis
      by (simp add: f parse_value_array skip_ws_punct del: parse_value.simps)
  next
    case False
    have all: "list_all wf_json vs" "list_all (tokens_ok nt) vs"
      using JArr.prems(1,2) by simp_all
    have ih: "\<And>v f r. v \<in> set vs \<Longrightarrow> delim r \<Longrightarrow> length (JSON_stringify nt v) \<le> f \<Longrightarrow>
                parse_value nv f (JSON_stringify nt v @ r) = Some (read_back nt nv v, r)"
      using JArr.IH all by (simp add: list_all_iff)
    have st: "JSON_stringify nt (hd vs) \<noteq> [] \<and> value_start (hd (JSON_stringify nt (hd vs)))"
      using all(2) False stringify_start [of nt "hd vs"] by (cases vs) simp_all
    have hj: "?j \<noteq> [] \<and> hd ?j = hd (JSON_stringify nt (hd vs))"
      using join_comma_hd [of "map (JSON_stringify nt) vs"] False st by (simp add: hd_map)
    then have sk: "skip_ws (?j @ 0x5D # r) = ?j @ 0x5D # r"
      using st by (intro skip_ws_start) simp_all
    obtain d r1 where dr: "?j @ 0x5D # r = d # r1" and d: "d \<noteq> 0x5D"
      using hj st value_start_not(2) [of "hd ?j"] by (cases ?j) auto
    have pe: "parse_elements nv f' [] (?j @ 0x5D # r) =
                Some (JArr ([] @ map (read_back nt nv) vs), r)"
      using False ih all(2) lj by (rule elements_roundtrip)
    have "parse_value nv (Suc f') (0x5B # ?j @ 0x5D # r) =
            Some (JArr (map (read_back nt nv) vs), r)"
      unfolding parse_value_array sk using pe d by (simp add: dr)
    then show ?thesis
      by (simp add: f del: parse_value.simps)
  qed
next
  case (JObj kvs)
  let ?j = "join_comma (map (member_text nt) kvs)"
  let ?seen = "map (\<lambda>kv. (fst kv, read_back nt nv (snd kv))) kvs"
  obtain f' where f: "f = Suc f'" and lj: "length ?j < f'"
    using JObj.prems(4) unfolding stringify_obj by (cases f) simp_all
  show ?case
  proof (cases "kvs = []")
    case True
    then show ?thesis
      by (simp add: f parse_value_object skip_ws_punct del: parse_value.simps)
  next
    case False
    have all: "list_all (\<lambda>kv. wf_json (snd kv)) kvs" "list_all (\<lambda>kv. tokens_ok nt (snd kv)) kvs"
      using JObj.prems(1,2) by simp_all
    have "js_ordered ?seen"
      using JObj.prems(1) by (simp add: js_ordered_map)
    then have obj: "obj_of ?seen = ?seen"
      by (simp add: obj_of_iff)
    have ih: "\<And>kv f r. kv \<in> set kvs \<Longrightarrow> delim r \<Longrightarrow>
                length (JSON_stringify nt (snd kv)) \<le> f \<Longrightarrow>
                parse_value nv f (JSON_stringify nt (snd kv) @ r) =
                  Some (read_back nt nv (snd kv), r)"
    proof -
      fix kv f r
      assume kv: "kv \<in> set kvs" and "delim r" and "length (JSON_stringify nt (snd kv)) \<le> f"
      moreover have "snd kv \<in> Basic_BNFs.snds kv"
        by (cases kv) simp
      moreover have "wf_json (snd kv)" "tokens_ok nt (snd kv)"
        using all kv by (simp_all add: list_all_iff)
      ultimately show "parse_value nv f (JSON_stringify nt (snd kv) @ r) =
                         Some (read_back nt nv (snd kv), r)"
        using JObj.IH [of kv "snd kv" r f] by simp
    qed
    have hj: "?j \<noteq> [] \<and> hd ?j = 0x22"
      using join_comma_hd [of "map (member_text nt) kvs"] False member_text_hd [of nt "hd kvs"]
      by (simp add: hd_map)
    then have sk: "skip_ws (?j @ 0x7D # r) = ?j @ 0x7D # r"
      by (intro skip_ws_start) (simp_all add: value_start_def)
    obtain d r1 where dr: "?j @ 0x7D # r = d # r1" and d: "d \<noteq> 0x7D"
      using hj by (cases ?j) auto
    have pm: "parse_members nv f' [] (?j @ 0x7D # r) =
                Some (JObj (foldl (\<lambda>obj kv. obj_put (fst kv) (snd kv) obj) [] ?seen), r)"
      using False ih all(2) lj by (rule members_roundtrip)
    have "parse_value nv (Suc f') (0x7B # ?j @ 0x7D # r) = Some (JObj ?seen, r)"
      unfolding parse_value_object sk using pm d obj by (simp add: dr obj_of_def)
    then show ?thesis
      unfolding stringify_obj by (simp add: f del: parse_value.simps)
  qed
qed

text \<open>What \<open>JSON.parse\<close> returns from the text \<open>JSON.stringify\<close> wrote for a value.\<close>

lemma roundtrip_text:
  assumes "wf_json v" and "tokens_ok nt v"
  shows "JSON_parse nv (JSON_stringify nt v) = Inr (read_back nt nv v)"
proof -
  have "parse_value nv (length (JSON_stringify nt v)) (JSON_stringify nt v @ []) =
          Some (read_back nt nv v, [])"
    using assms by (intro roundtrip_value) (simp_all add: delim_def)
  moreover have "skip_ws (JSON_stringify nt v @ []) = JSON_stringify nt v @ []"
    using stringify_start [OF assms(2)] by (intro skip_ws_start) simp_all
  ultimately show ?thesis
    by (simp add: JSON_parse_def skip_ws_def)
qed

text \<open>A value whose numbers survive their text is read back as itself.\<close>

lemma nums_ok_read_back:
  assumes "nums_ok nt nv v"
  shows "read_back nt nv v = v"
  using assms
proof (induction v)
  case (JNum x)
  then show ?case by (cases x) simp_all
next
  case (JArr vs)
  then show ?case by (simp add: list_all_iff map_idI)
next
  case (JObj kvs)
  have "(fst kv, read_back nt nv (snd kv)) = kv" if "kv \<in> set kvs" for kv
    using JObj.IH [of kv "snd kv"] JObj.prems that by (cases kv) (auto simp: list_all_iff)
  then show ?case by (simp add: map_idI)
qed simp_all

lemma settles_tokens:
  assumes "settles nt nv v"
  shows "tokens_ok nt v"
  using assms
proof (induction v)
  case (JNum x)
  then show ?case by (cases x) simp_all
next
  case (JArr vs)
  then show ?case by (simp add: list_all_iff)
next
  case (JObj kvs)
  have "tokens_ok nt (snd kv)" if "kv \<in> set kvs" for kv
    using JObj.IH [of kv "snd kv"] JObj.prems that by (cases kv) (auto simp: list_all_iff)
  then show ?case by (simp add: list_all_iff)
qed simp_all

text \<open>What is read back from a value whose numbers settle is a value whose numbers survive.\<close>

lemma settles_read_back:
  assumes "settles nt nv v"
  shows "nums_ok nt nv (read_back nt nv v)"
  using assms
proof (induction v)
  case (JNum x)
  then show ?case by (cases x) (auto split: jsnum.splits)
next
  case (JArr vs)
  then show ?case by (simp add: list_all_iff)
next
  case (JObj kvs)
  have "nums_ok nt nv (read_back nt nv (snd kv))" if "kv \<in> set kvs" for kv
    using JObj.IH [of kv "snd kv"] JObj.prems that by (cases kv) (auto simp: list_all_iff)
  then show ?case by (simp add: list_all_iff)
qed simp_all

lemma wf_read_back:
  assumes "wf_json v"
  shows "wf_json (read_back nt nv v)"
  using assms
proof (induction v)
  case (JNum x)
  then show ?case by (cases x) simp_all
next
  case (JArr vs)
  then show ?case by (simp add: list_all_iff)
next
  case (JObj kvs)
  have "wf_json (read_back nt nv (snd kv))" if "kv \<in> set kvs" for kv
    using JObj.IH [of kv "snd kv"] JObj.prems that by (cases kv) (auto simp: list_all_iff)
  then show ?case
    using JObj.prems by (simp add: list_all_iff js_ordered_map)
qed simp_all

section \<open>The bound on nested calls is enough\<close>

lemma parse_chars_shorter:
  assumes "parse_chars s = Some (k, t)"
  shows "length t < length s"
  using assms
proof (induction s arbitrary: k t rule: length_induct)
  case (1 s)
  then obtain c r where s: "s = c # r"
    by (cases s) auto
  have ih: "\<And>u k' t'. length u \<le> length r \<Longrightarrow> parse_chars u = Some (k', t') \<Longrightarrow> length t' < length u"
    using "1.IH" s by simp
  show ?case
  proof (cases "c = 0x22")
    case True
    then show ?thesis
      using "1.prems" s by simp
  next
    case nq: False
    show ?thesis
    proof (cases "c = 0x5C")
      case True
      then obtain e r1 where r: "r = e # r1"
        using "1.prems" s nq by (cases r) auto
      show ?thesis
      proof (cases "e = 0x75")
        case True
        then obtain h1 h2 h3 h4 r2 u k' where r1: "r1 = h1 # h2 # h3 # h4 # r2"
          and p: "parse_chars r2 = Some (k', t)"
          using "1.prems" s nq \<open>c = 0x5C\<close> r
          by (auto split: list.splits option.splits)
        have "length t < length r2"
          using ih [of r2 k' t] p r r1 by simp
        then show ?thesis
          using s r r1 by simp
      next
        case False
        then obtain k' where p: "parse_chars r1 = Some (k', t)"
          using "1.prems" s nq \<open>c = 0x5C\<close> r by (auto split: option.splits)
        have "length t < length r1"
          using ih [of r1 k' t] p r by simp
        then show ?thesis
          using s r by simp
      qed
    next
      case False
      then obtain k' where p: "parse_chars r = Some (k', t)"
        using "1.prems" s nq by (auto split: if_splits)
      have "length t < length r"
        using ih [of r k' t] p by simp
      then show ?thesis
        using s by simp
    qed
  qed
qed

lemma scan_number_shorter:
  assumes "scan_number s = Some (l, t)"
  shows "length t < length s"
proof -
  obtain m r0 where m: "scan_minus s = (m, r0)"
    by (cases "scan_minus s") auto
  obtain i r1 where i: "scan_int r0 = Some (i, r1)"
    using assms(1) m by (auto simp: scan_number_def split: option.splits)
  obtain f r2 where f: "scan_frac r1 = Some (f, r2)"
    using assms(1) m i by (auto simp: scan_number_def split: option.splits)
  obtain e r3 where e: "scan_exp r2 = Some (e, r3)"
    using assms(1) m i f by (auto simp: scan_number_def split: option.splits)
  have t: "t = r3"
    using assms(1) m i f e by (simp add: scan_number_def)
  have a: "length r0 \<le> length s"
    using m by (cases s) (auto simp: scan_minus_def split: if_splits)
  have b: "length r1 < length r0"
    using i length_dropWhile_le [of is_digit "tl r0"]
    by (cases r0) (auto simp: scan_int_def split: if_splits)
  have c: "length r2 \<le> length r1"
    using f length_dropWhile_le [of is_digit "tl r1"]
    by (cases r1) (auto simp: scan_frac_def split: if_splits)
  have d: "length r3 \<le> length r2"
  proof (cases r2)
    case Nil
    then show ?thesis using e by (simp add: scan_exp_def)
  next
    case (Cons x r2')
    obtain sg r4 where sg: "scan_sign r2' = (sg, r4)"
      by (cases "scan_sign r2'") auto
    have "length r4 \<le> length r2'"
      using sg by (cases r2') (auto simp: scan_sign_def split: if_splits)
    then show ?thesis
      using e Cons sg length_dropWhile_le [of is_digit r4]
      by (auto simp: scan_exp_def split: if_splits)
  qed
  show ?thesis
    using a b c d t by simp
qed

lemma skip_ws_le: "length (skip_ws s) \<le> length s"
  by (simp add: skip_ws_def length_dropWhile_le)

lemma atom_fuel:
  assumes "c \<noteq> 0x7B" and "c \<noteq> 0x5B"
  shows "parse_value nv (Suc f) (c # t) = parse_value nv (Suc g) (c # t)"
  using assms by simp

lemma atom_shorter:
  assumes "c \<noteq> 0x7B" and "c \<noteq> 0x5B" and "parse_value nv (Suc f) (c # t) = Some (v, r)"
  shows "length r < length (c # t)"
proof (cases "c = 0x22")
  case True
  then show ?thesis
    using assms(3) parse_chars_shorter [of t] by auto
next
  case False
  show ?thesis
  proof (cases "take 4 (c # t) = lit ''true'' \<or> take 5 (c # t) = lit ''false''
                \<or> take 4 (c # t) = lit ''null''")
    case True
    then show ?thesis
      using assms False by (auto split: if_splits)
  next
    case nl: False
    then obtain l where "scan_number (c # t) = Some (l, r)"
      using assms False by auto
    then show ?thesis
      by (rule scan_number_shorter)
  qed
qed

lemma value_fuel_step:
  assumes ihe: "\<And>acc s v r. parse_elements nv f acc s = Some (v, r) \<Longrightarrow>
                  length r < length s
                  \<and> (\<forall>g. length s - length r \<le> g \<longrightarrow> parse_elements nv g acc s = Some (v, r))"
    and ihm: "\<And>acc s v r. parse_members nv f acc s = Some (v, r) \<Longrightarrow>
                  length r < length s
                  \<and> (\<forall>g. length s - length r \<le> g \<longrightarrow> parse_members nv g acc s = Some (v, r))"
    and p: "parse_value nv (Suc f) s = Some (v, r)"
  shows "length r < length s
         \<and> (\<forall>g. length s - length r \<le> g \<longrightarrow> parse_value nv g s = Some (v, r))"
proof -
  obtain c t where s: "s = c # t"
    using p by (cases s) auto
  have suc: "\<And>g. length r < length s \<Longrightarrow> length s - length r \<le> g \<Longrightarrow> \<exists>g'. g = Suc g'"
    by (metis Suc_le_D zero_less_diff Suc_leI)
  show ?thesis
  proof (cases "c = 0x7B \<or> c = 0x5B")
    case False
    then have c: "c \<noteq> 0x7B" "c \<noteq> 0x5B"
      by simp_all
    have sh: "length r < length s"
      using atom_shorter [OF c] p s by blast
    have "parse_value nv g s = Some (v, r)" if le: "length s - length r \<le> g" for g
    proof -
      obtain g' where "g = Suc g'"
        using suc [OF sh le] by blast
      then show ?thesis
        using atom_fuel [OF c, of nv g' t f] p s by simp
    qed
    then show ?thesis
      using sh by blast
  next
    case True
    obtain d r1 where sk: "skip_ws t = d # r1"
      using p s True by (cases "skip_ws t") auto
    have l1: "length r1 < length t"
      using skip_ws_le [of t] sk by simp
    show ?thesis
    proof (cases "c = 0x7B")
      case obj: True
      show ?thesis
      proof (cases "d = 0x7D")
        case True
        then have vr: "v = JObj []" "r = r1"
          using p s obj sk by simp_all
        have "parse_value nv g s = Some (v, r)" if le: "length s - length r \<le> g" for g
        proof -
          obtain g' where "g = Suc g'"
            using suc [of g] le l1 vr s by auto
          then show ?thesis
            using s obj sk True vr by simp
        qed
        then show ?thesis
          using l1 vr s by auto
      next
        case False
        then have pm: "parse_members nv f [] (skip_ws t) = Some (v, r)"
          using p s obj sk by simp
        note m = ihm [OF pm]
        have sh: "length r < length s"
          using m skip_ws_le [of t] s by simp
        have "parse_value nv g s = Some (v, r)" if le: "length s - length r \<le> g" for g
        proof -
          obtain g' where g: "g = Suc g'"
            using suc [OF sh le] by blast
          have "length (skip_ws t) - length r \<le> g'"
            using le g s skip_ws_le [of t] by simp
          then have "parse_members nv g' [] (skip_ws t) = Some (v, r)"
            using m by blast
          then show ?thesis
            using g s obj sk False by simp
        qed
        then show ?thesis
          using sh by blast
      qed
    next
      case nobj: False
      then have arr: "c = 0x5B"
        using True by simp
      show ?thesis
      proof (cases "d = 0x5D")
        case True
        then have vr: "v = JArr []" "r = r1"
          using p s arr sk by simp_all
        have "parse_value nv g s = Some (v, r)" if le: "length s - length r \<le> g" for g
        proof -
          obtain g' where "g = Suc g'"
            using suc [of g] le l1 vr s by auto
          then show ?thesis
            using s arr sk True vr by simp
        qed
        then show ?thesis
          using l1 vr s by auto
      next
        case False
        then have pe: "parse_elements nv f [] (skip_ws t) = Some (v, r)"
          using p s arr sk by simp
        note m = ihe [OF pe]
        have sh: "length r < length s"
          using m skip_ws_le [of t] s by simp
        have "parse_value nv g s = Some (v, r)" if le: "length s - length r \<le> g" for g
        proof -
          obtain g' where g: "g = Suc g'"
            using suc [OF sh le] by blast
          have "length (skip_ws t) - length r \<le> g'"
            using le g s skip_ws_le [of t] by simp
          then have "parse_elements nv g' [] (skip_ws t) = Some (v, r)"
            using m by blast
          then show ?thesis
            using g s arr sk False by simp
        qed
        then show ?thesis
          using sh by blast
      qed
    qed
  qed
qed

lemma elements_fuel_step:
  assumes ihv: "\<And>s v r. parse_value nv f s = Some (v, r) \<Longrightarrow>
                  length r < length s
                  \<and> (\<forall>g. length s - length r \<le> g \<longrightarrow> parse_value nv g s = Some (v, r))"
    and ihe: "\<And>acc s v r. parse_elements nv f acc s = Some (v, r) \<Longrightarrow>
                  length r < length s
                  \<and> (\<forall>g. length s - length r \<le> g \<longrightarrow> parse_elements nv g acc s = Some (v, r))"
    and p: "parse_elements nv (Suc f) acc s = Some (v, r)"
  shows "length r < length s
         \<and> (\<forall>g. length s - length r \<le> g \<longrightarrow> parse_elements nv g acc s = Some (v, r))"
proof -
  obtain v1 r0 where pv: "parse_value nv f s = Some (v1, r0)"
    using p by (cases "parse_value nv f s") auto
  obtain c r1 where sk: "skip_ws r0 = c # r1"
    using p pv by (cases "skip_ws r0") auto
  note a = ihv [OF pv]
  have l0: "length r0 < length s" and l1: "length r1 < length r0"
    using a skip_ws_le [of r0] sk by simp_all
  show ?thesis
  proof (cases "c = 0x2C")
    case True
    then have pe: "parse_elements nv f (acc @ [v1]) (skip_ws r1) = Some (v, r)"
      using p pv sk by simp
    note b = ihe [OF pe]
    have l2: "length r < length r1"
      using b skip_ws_le [of r1] by simp
    have "parse_elements nv g acc s = Some (v, r)" if le: "length s - length r \<le> g" for g
    proof -
      obtain g' where g: "g = Suc g'"
        using le l0 l1 l2 by (cases g) simp_all
      have "length s - length r0 \<le> g'" and "length (skip_ws r1) - length r \<le> g'"
        using le g l0 l1 l2 skip_ws_le [of r1] by simp_all
      then have "parse_value nv g' s = Some (v1, r0)"
        and "parse_elements nv g' (acc @ [v1]) (skip_ws r1) = Some (v, r)"
        using a b by blast+
      then show ?thesis
        using g sk True by simp
    qed
    then show ?thesis
      using l0 l1 l2 by simp
  next
    case False
    then have vr: "c = 0x5D" "v = JArr (acc @ [v1])" "r = r1"
      using p pv sk by (simp_all split: if_splits)
    have "parse_elements nv g acc s = Some (v, r)" if le: "length s - length r \<le> g" for g
    proof -
      obtain g' where g: "g = Suc g'"
        using le l0 l1 vr by (cases g) simp_all
      have "length s - length r0 \<le> g'"
        using le g l0 l1 vr by simp
      then have "parse_value nv g' s = Some (v1, r0)"
        using a by blast
      then show ?thesis
        using g sk vr by simp
    qed
    then show ?thesis
      using l0 l1 vr by simp
  qed
qed

lemma members_fuel_step:
  assumes ihv: "\<And>s v r. parse_value nv f s = Some (v, r) \<Longrightarrow>
                  length r < length s
                  \<and> (\<forall>g. length s - length r \<le> g \<longrightarrow> parse_value nv g s = Some (v, r))"
    and ihm: "\<And>acc s v r. parse_members nv f acc s = Some (v, r) \<Longrightarrow>
                  length r < length s
                  \<and> (\<forall>g. length s - length r \<le> g \<longrightarrow> parse_members nv g acc s = Some (v, r))"
    and p: "parse_members nv (Suc f) acc s = Some (v, r)"
  shows "length r < length s
         \<and> (\<forall>g. length s - length r \<le> g \<longrightarrow> parse_members nv g acc s = Some (v, r))"
proof -
  obtain t where s: "s = 0x22 # t"
    using p by (cases s) (auto split: if_splits)
  obtain k r1 where pc: "parse_chars t = Some (k, r1)"
    using p s by (cases "parse_chars t") auto
  obtain r2 where sk1: "skip_ws r1 = 0x3A # r2"
    using p s pc by (cases "skip_ws r1") (auto split: if_splits)
  obtain v1 r3 where pv: "parse_value nv f (skip_ws r2) = Some (v1, r3)"
    using p s pc sk1 by (cases "parse_value nv f (skip_ws r2)") auto
  obtain e r4 where sk3: "skip_ws r3 = e # r4"
    using p s pc sk1 pv by (cases "skip_ws r3") auto
  note a = ihv [OF pv]
  have l1: "length r1 < length t" and l2: "length r2 < length r1"
    and l3: "length r3 < length r2" and l4: "length r4 < length r3"
    using parse_chars_shorter [OF pc] skip_ws_le [of r1] sk1 a skip_ws_le [of r2]
      skip_ws_le [of r3] sk3 by simp_all
  show ?thesis
  proof (cases "e = 0x2C")
    case True
    then have pm: "parse_members nv f (obj_put k v1 acc) (skip_ws r4) = Some (v, r)"
      using p s pc sk1 pv sk3 by simp
    note b = ihm [OF pm]
    have l5: "length r < length r4"
      using b skip_ws_le [of r4] by simp
    have "parse_members nv g acc s = Some (v, r)" if le: "length s - length r \<le> g" for g
    proof -
      obtain g' where g: "g = Suc g'"
        using le s l1 l2 l3 l4 l5 by (cases g) simp_all
      have "length (skip_ws r2) - length r3 \<le> g'" and "length (skip_ws r4) - length r \<le> g'"
        using le g s l1 l2 l3 l4 l5 skip_ws_le [of r2] skip_ws_le [of r4] by simp_all
      then have "parse_value nv g' (skip_ws r2) = Some (v1, r3)"
        and "parse_members nv g' (obj_put k v1 acc) (skip_ws r4) = Some (v, r)"
        using a b by blast+
      then show ?thesis
        using g s pc sk1 sk3 True by simp
    qed
    then show ?thesis
      using s l1 l2 l3 l4 l5 by simp
  next
    case False
    then have vr: "e = 0x7D" "v = JObj (obj_put k v1 acc)" "r = r4"
      using p s pc sk1 pv sk3 by (simp_all split: if_splits)
    have "parse_members nv g acc s = Some (v, r)" if le: "length s - length r \<le> g" for g
    proof -
      obtain g' where g: "g = Suc g'"
        using le s l1 l2 l3 l4 vr by (cases g) simp_all
      have "length (skip_ws r2) - length r3 \<le> g'"
        using le g s l1 l2 l3 l4 vr skip_ws_le [of r2] by simp
      then have "parse_value nv g' (skip_ws r2) = Some (v1, r3)"
        using a by blast
      then show ?thesis
        using g s pc sk1 sk3 vr by simp
    qed
    then show ?thesis
      using s l1 l2 l3 l4 vr by simp
  qed
qed

lemma parse_fuel_all:
  "(\<forall>s v r. parse_value nv f s = Some (v, r) \<longrightarrow>
      length r < length s
      \<and> (\<forall>g. length s - length r \<le> g \<longrightarrow> parse_value nv g s = Some (v, r)))
   \<and> (\<forall>acc s v r. parse_elements nv f acc s = Some (v, r) \<longrightarrow>
      length r < length s
      \<and> (\<forall>g. length s - length r \<le> g \<longrightarrow> parse_elements nv g acc s = Some (v, r)))
   \<and> (\<forall>acc s v r. parse_members nv f acc s = Some (v, r) \<longrightarrow>
      length r < length s
      \<and> (\<forall>g. length s - length r \<le> g \<longrightarrow> parse_members nv g acc s = Some (v, r)))"
proof (induction f)
  case 0
  show ?case by simp
next
  case (Suc f)
  have ihv: "\<And>s v r. parse_value nv f s = Some (v, r) \<Longrightarrow>
               length r < length s
               \<and> (\<forall>g. length s - length r \<le> g \<longrightarrow> parse_value nv g s = Some (v, r))"
    and ihe: "\<And>acc s v r. parse_elements nv f acc s = Some (v, r) \<Longrightarrow>
               length r < length s
               \<and> (\<forall>g. length s - length r \<le> g \<longrightarrow> parse_elements nv g acc s = Some (v, r))"
    and ihm: "\<And>acc s v r. parse_members nv f acc s = Some (v, r) \<Longrightarrow>
               length r < length s
               \<and> (\<forall>g. length s - length r \<le> g \<longrightarrow> parse_members nv g acc s = Some (v, r))"
    using Suc.IH by blast+
  show ?case
    using value_fuel_step [OF ihe ihm] elements_fuel_step [OF ihv ihe]
      members_fuel_step [OF ihv ihm]
    by blast
qed

text \<open>More fuel than the length of the text never changes the result.\<close>

lemma parse_value_fuel:
  assumes "length s \<le> g"
  shows "parse_value nv g (skip_ws s) = parse_value nv (length s) (skip_ws s)"
proof (cases "parse_value nv g (skip_ws s)")
  case None
  show ?thesis
  proof (cases "parse_value nv (length s) (skip_ws s)")
    case inner: None
    then show ?thesis using None by simp
  next
    case (Some x)
    obtain v r where x: "x = (v, r)"
      by (cases x) auto
    have "length (skip_ws s) - length r \<le> g"
      using assms skip_ws_le [of s] by simp
    then have "parse_value nv g (skip_ws s) = Some (v, r)"
      using parse_fuel_all [of nv "length s"] Some x by blast
    then show ?thesis
      using None by simp
  qed
next
  case (Some x)
  obtain v r where x: "x = (v, r)"
    by (cases x) auto
  have "length (skip_ws s) - length r \<le> length s"
    using skip_ws_le [of s] by simp
  then have "parse_value nv (length s) (skip_ws s) = Some (v, r)"
    using parse_fuel_all [of nv g] Some x by blast
  then show ?thesis
    using Some x by simp
qed

section \<open>Persisting and loading the session list\<close>

lemma not_index:
  assumes "k \<noteq> []" and "\<not> is_digit (hd k)"
  shows "\<not> is_array_index k"
  using assms by (cases k) (simp_all add: is_array_index_def)

lemma key_not_index:
  "\<not> is_array_index (lit ''id'')" "\<not> is_array_index (lit ''title'')"
  "\<not> is_array_index (lit ''messages'')" "\<not> is_array_index (lit ''createdAt'')"
  "\<not> is_array_index (lit ''pdfData'')" "\<not> is_array_index (lit ''content'')"
  "\<not> is_array_index (lit ''sender'')" "\<not> is_array_index (lit ''timestamp'')"
  by (rule not_index; simp add: lit_def is_digit_def)+

lemma wf_message_json: "wf_json (message_json m)"
  by (simp add: message_json_def key_not_index) (simp add: lit_def)

lemma tokens_message_json: "tokens_ok nt (message_json m)"
  by (simp add: message_json_def)

lemma read_back_message_json: "read_back nt nv (message_json m) = message_json m"
  by (simp add: message_json_def)

lemma wf_chat_json:
  assumes "case pdfData c of None \<Rightarrow> True | Some p \<Rightarrow> wf_json p"
  shows "wf_json (chat_json c)"
proof -
  have k: "js_ordered [(lit ''id'', JStr (chat_id c)), (lit ''title'', JStr (title c)),
                       (lit ''messages'', JArr (map message_json (messages c))),
                       (lit ''createdAt'', JStr (createdAt c))]"
    "js_ordered [(lit ''id'', JStr (chat_id c)), (lit ''title'', JStr (title c)),
                 (lit ''messages'', JArr (map message_json (messages c))),
                 (lit ''createdAt'', JStr (createdAt c)), (lit ''pdfData'', p)]" for p
    by (simp_all add: key_not_index) (simp_all add: lit_def)
  show ?thesis
    using assms
    by (cases "pdfData c")
      (simp_all add: chat_json_def k list_all_iff wf_message_json del: js_ordered.simps)
qed

lemma tokens_chat_json:
  assumes "case pdfData c of None \<Rightarrow> True | Some p \<Rightarrow> tokens_ok nt p"
  shows "tokens_ok nt (chat_json c)"
  using assms
  by (cases "pdfData c") (simp_all add: chat_json_def list_all_iff tokens_message_json)

lemma read_back_chat_json:
  "read_back nt nv (chat_json c) =
     chat_json (c\<lparr>pdfData := map_option (read_back nt nv) (pdfData c)\<rparr>)"
  by (cases "pdfData c") (simp_all add: chat_json_def read_back_message_json)

lemma read_back_chats_json:
  "read_back nt nv (chats_json cs) = chats_json (reloaded nt nv cs)"
  by (simp add: chats_json_def reloaded_def read_back_chat_json)

lemma chats_json_ok:
  assumes "payloads_settle nt nv cs"
  shows "wf_json (chats_json cs)" and "tokens_ok nt (chats_json cs)"
proof -
  have "\<forall>c \<in> set cs. wf_json (chat_json c)"
    using assms
    by (auto simp: payloads_settle_def list_all_iff intro!: wf_chat_json split: option.splits)
  then show "wf_json (chats_json cs)"
    by (simp add: chats_json_def list_all_iff)
  have "tokens_ok nt (chat_json c)" if "c \<in> set cs" for c
  proof (cases "pdfData c")
    case None
    then show ?thesis
      by (intro tokens_chat_json) simp
  next
    case (Some p)
    then have "settles nt nv p"
      using assms that by (auto simp: payloads_settle_def list_all_iff)
    then show ?thesis
      using Some by (intro tokens_chat_json) (simp add: settles_tokens)
  qed
  then show "tokens_ok nt (chats_json cs)"
    by (simp add: chats_json_def list_all_iff)
qed

text \<open>A list whose payload numbers survive their text is one whose numbers settle.\<close>

lemma nums_ok_settles:
  assumes "nums_ok nt nv v"
  shows "settles nt nv v"
  using assms
proof (induction v)
  case (JNum x)
  then show ?case by (cases x) simp_all
next
  case (JArr vs)
  then show ?case by (simp add: list_all_iff)
next
  case (JObj kvs)
  have "settles nt nv (snd kv)" if "kv \<in> set kvs" for kv
    using JObj.IH [of kv "snd kv"] JObj.prems that by (cases kv) (auto simp: list_all_iff)
  then show ?case by (simp add: list_all_iff)
qed simp_all

lemma payloads_ok_settle:
  assumes "payloads_ok nt nv cs"
  shows "payloads_settle nt nv cs"
  using assms
  by (auto simp: payloads_ok_def payloads_settle_def list_all_iff nums_ok_settles
      split: option.splits)

text \<open>Such a list is reloaded as itself.\<close>

lemma payloads_ok_reloaded:
  assumes "payloads_ok nt nv cs"
  shows "reloaded nt nv cs = cs"
proof -
  have "c\<lparr>pdfData := map_option (read_back nt nv) (pdfData c)\<rparr> = c" if "c \<in> set cs" for c
    using assms that
    by (cases "pdfData c") (auto simp: payloads_ok_def list_all_iff nums_ok_read_back)
  then show ?thesis
    by (simp add: reloaded_def map_idI)
qed

text \<open>What is reloaded is a list whose payload numbers survive their text.\<close>

lemma reloaded_payloads_ok:
  assumes "payloads_settle nt nv cs"
  shows "payloads_ok nt nv (reloaded nt nv cs)"
  using assms
  by (auto simp: payloads_settle_def payloads_ok_def reloaded_def list_all_iff
      wf_read_back settles_read_back split: option.splits)

lemma reloaded_fields:
  "map chat_id (reloaded nt nv cs) = map chat_id cs"
  "map title (reloaded nt nv cs) = map title cs"
  "map messages (reloaded nt nv cs) = map messages cs"
  "map createdAt (reloaded nt nv cs) = map createdAt cs"
  "map pdfData (reloaded nt nv cs) = map (map_option (read_back nt nv) \<circ> pdfData) cs"
  by (simp_all add: reloaded_def comp_def)

lemma persist_nonempty: "persist nt cs \<noteq> []"
  by (simp add: persist_def chats_json_def)

text \<open>What \<open>load\<close> returns from the text the persistence effect stored.\<close>

lemma load_persist:
  assumes "payloads_settle nt nv cs"
  shows "load nv (Some (persist nt cs)) = Inr (chats_json (reloaded nt nv cs))"
  using roundtrip_text [OF chats_json_ok [OF assms]]
  by (simp add: load_def truthy_str_def persist_nonempty read_back_chats_json)
    (simp add: persist_def)

lemma literal_null:
  "JSON_parse nv (lit ''null'') = Inr JNull"
  by (simp add: JSON_parse_def skip_ws_def is_json_ws_def lit_def)

lemma sender_str_inj: "sender_str a = sender_str b \<Longrightarrow> a = b"
  by (cases a; cases b) (simp_all add: sender_str_def lit_def)

lemma message_json_inj: "(message_json m :: 'n json) = message_json m' \<Longrightarrow> m = m'"
  by (cases m; cases m') (auto simp: message_json_def dest: sender_str_inj)

lemma map_inj_eq:
  assumes "\<And>x y. f x = f y \<Longrightarrow> x = y" and "map f xs = map f ys"
  shows "xs = ys"
  using assms(2) assms(1) by (induction xs arbitrary: ys) (auto simp: map_eq_Cons_conv)

lemma chat_json_inj: "chat_json c = chat_json c' \<Longrightarrow> c = c'"
proof -
  assume e: "chat_json c = chat_json c'"
  have m: "map message_json (messages c) = (map message_json (messages c') :: 'a json list)
           \<Longrightarrow> messages c = messages c'"
    using map_inj_eq [of "message_json :: message \<Rightarrow> 'a json"] message_json_inj by blast
  show ?thesis
    using e m
    by (cases c; cases c'; cases "pdfData c"; cases "pdfData c'") (auto simp: chat_json_def)
qed

lemma chats_json_inj: "chats_json cs = chats_json cs' \<Longrightarrow> cs = cs'"
  using map_inj_eq [of chat_json cs cs'] chat_json_inj by (auto simp: chats_json_def)

text \<open>
  C9: for every session list whose payload numbers settle, \<open>JSON.parse\<close> of
  \<open>JSON.stringify\<close> of the list, and what \<open>load\<close> returns from what the persistence effect
  stored, is the list with the same sessions in the same order, each with its identifier,
  title, messages and creation time, and with its payload as it is read back: a number that
  is not finite as \<open>null\<close> (the text written for it is \<open>null\<close>), a finite number as the
  number its text is read as. The list is reloaded as itself whenever every payload number
  survives its text. A second round trip returns what the first returned. Two session lists
  with the same value are the same list (order of sessions, order of messages and every
  field).
\<close>

theorem persist_load_roundtrip:
  assumes "payloads_settle nt nv cs"
  shows "JSON_parse nv (JSON_stringify nt (chats_json cs)) = Inr (chats_json (reloaded nt nv cs))
       \<and> load nv (Some (persist nt cs)) = Inr (chats_json (reloaded nt nv cs))
       \<and> (payloads_ok nt nv cs \<longrightarrow> reloaded nt nv cs = cs)
       \<and> map chat_id (reloaded nt nv cs) = map chat_id cs
       \<and> map title (reloaded nt nv cs) = map title cs
       \<and> map messages (reloaded nt nv cs) = map messages cs
       \<and> map createdAt (reloaded nt nv cs) = map createdAt cs
       \<and> map pdfData (reloaded nt nv cs) = map (map_option (read_back nt nv) \<circ> pdfData) cs
       \<and> JSON_stringify nt (JNum NaN) = lit ''null''
       \<and> JSON_stringify nt (JNum Infinity) = lit ''null''
       \<and> JSON_stringify nt (JNum NegInfinity) = lit ''null''
       \<and> JSON_parse nv (lit ''null'') = Inr JNull
       \<and> (\<forall>v. load nv (Some (persist nt cs)) = Inr v \<longrightarrow>
            JSON_parse nv (JSON_stringify nt v) = Inr v)
       \<and> load nv (Some (persist nt (reloaded nt nv cs))) = load nv (Some (persist nt cs))
       \<and> (\<forall>cs'. chats_json cs' = chats_json cs \<longrightarrow> cs' = cs)"
proof -
  let ?cs = "reloaded nt nv cs"
  have ok: "payloads_ok nt nv ?cs"
    using assms by (rule reloaded_payloads_ok)
  have st: "payloads_settle nt nv ?cs"
    using ok by (rule payloads_ok_settle)
  have id: "reloaded nt nv ?cs = ?cs"
    using ok by (rule payloads_ok_reloaded)
  have a: "JSON_parse nv (JSON_stringify nt (chats_json cs)) = Inr (chats_json ?cs)"
    using roundtrip_text [OF chats_json_ok [OF assms]] by (simp add: read_back_chats_json)
  have b: "load nv (Some (persist nt cs)) = Inr (chats_json ?cs)"
    using assms by (rule load_persist)
  have c: "payloads_ok nt nv cs \<longrightarrow> ?cs = cs"
    using payloads_ok_reloaded by blast
  have d: "JSON_stringify nt (JNum NaN) = lit ''null''"
    "JSON_stringify nt (JNum Infinity) = lit ''null''"
    "JSON_stringify nt (JNum NegInfinity) = lit ''null''"
    by simp_all
  have e: "JSON_parse nv (JSON_stringify nt (chats_json ?cs)) = Inr (chats_json ?cs)"
    using roundtrip_text [OF chats_json_ok [OF st]] by (simp add: read_back_chats_json id)
  have f: "\<forall>v. load nv (Some (persist nt cs)) = Inr v \<longrightarrow>
             JSON_parse nv (JSON_stringify nt v) = Inr v"
    using b e by simp
  have g: "load nv (Some (persist nt ?cs)) = load nv (Some (persist nt cs))"
    using load_persist [OF st] b by (simp add: id)
  have h: "\<forall>cs'. chats_json cs' = chats_json cs \<longrightarrow> cs' = cs"
    using chats_json_inj by blast
  show ?thesis
    using a b c d f g h reloaded_fields [of nt nv cs] literal_null [of nv] by blast
qed

lemma ex_saved_eq:
  "ex_saved =
     [\<lparr>chat_id = lit ''c1'', title = lit ''PDF: a.pdf'',
       messages = [upload_message \<lparr>name = lit ''a.pdf''\<rparr> (lit ''m1'') (lit ''t2''),
                   userMessage (lit ''Hello'') (lit ''m2'') (lit ''t3''),
                   aiMessage (lit ''Hi'') (lit ''m3'') (lit ''t4'')],
       createdAt = lit ''t0'', pdfData = Some ex_doc\<rparr>]"
  by (simp add: ex_saved_def ex_uploaded_def render_of_def handleSendMessage_def
      handleSendMessage_begin_def
      handleSendMessage_resolve_def handleFileUpload_def handleFileUpload_begin_def
      handleFileUpload_resolve_def createNewChat_def init_state_def newChat_def
      attachDocument_def appendUser_def appendAi_def truthy_active_def Let_def)
    (simp add: truthy_str_def trim_def lit_def is_ws_def)

lemma ex_payloads_ok: "payloads_ok ex_nt ex_nv ex_saved"
  by (simp add: ex_saved_eq payloads_ok_def ex_doc_def ex_nv_def dec_value_def
      scan_number_def scan_minus_def scan_int_def scan_frac_def scan_exp_def is_digit_def lit_def)

lemma ex_inf_settles: "payloads_settle ex_nt ex_nv ex_inf"
  by (simp add: payloads_settle_def ex_inf_def newChat_def)

lemma ex_inf_reloaded:
  "reloaded ex_nt ex_nv ex_inf = [(newChat (lit ''c1'') (lit ''t0'')) \<lparr>pdfData := Some JNull\<rparr>]"
  by (simp add: reloaded_def ex_inf_def newChat_def)

theorem persist_load_roundtrip_witness:
  "load ex_nv (Some (persist ex_nt ex_saved)) = Inr (chats_json ex_saved)
   \<and> JSON_parse ex_nv (JSON_stringify ex_nt (chats_json ex_saved)) = Inr (chats_json ex_saved)
   \<and> load ex_nv (Some (persist ex_nt ex_inf)) =
       Inr (chats_json [(newChat (lit ''c1'') (lit ''t0'')) \<lparr>pdfData := Some JNull\<rparr>])
   \<and> load ex_nv (Some (persist ex_nt
         [(newChat (lit ''c1'') (lit ''t0'')) \<lparr>pdfData := Some JNull\<rparr>])) =
       load ex_nv (Some (persist ex_nt ex_inf))"
proof -
  have "payloads_settle ex_nt ex_nv ex_saved"
    using ex_payloads_ok by (rule payloads_ok_settle)
  then have "load ex_nv (Some (persist ex_nt ex_saved)) = Inr (chats_json ex_saved)
    \<and> JSON_parse ex_nv (JSON_stringify ex_nt (chats_json ex_saved)) = Inr (chats_json ex_saved)"
    using persist_load_roundtrip [of ex_nt ex_nv ex_saved] ex_payloads_ok by simp
  moreover have "load ex_nv (Some (persist ex_nt ex_inf)) =
       Inr (chats_json [(newChat (lit ''c1'') (lit ''t0'')) \<lparr>pdfData := Some JNull\<rparr>])
   \<and> load ex_nv (Some (persist ex_nt
         [(newChat (lit ''c1'') (lit ''t0'')) \<lparr>pdfData := Some JNull\<rparr>])) =
       load ex_nv (Some (persist ex_nt ex_inf))"
    using persist_load_roundtrip [OF ex_inf_settles] unfolding ex_inf_reloaded by blast
  ultimately show ?thesis
    by blast
qed

text \<open>
  C1: \<open>load\<close> returns the empty list when nothing is persisted and when the persisted
  string is empty; for any other persisted string it is \<open>JSON.parse\<close> of it, the thrown
  \<open>SyntaxError\<close> included; from the text the persistence effect stored for a session list
  whose payload numbers settle it returns the list with each payload as it is read back,
  and the list itself when every payload number survives its text.
\<close>

theorem load_cases:
  "load nv None = Inr (JArr [])
   \<and> load nv (Some []) = Inr (JArr [])
   \<and> (s \<noteq> [] \<longrightarrow> load nv (Some s) = JSON_parse nv s)
   \<and> (payloads_settle nt nv cs \<longrightarrow>
        load nv (Some (persist nt cs)) = Inr (chats_json (reloaded nt nv cs)))
   \<and> (payloads_ok nt nv cs \<longrightarrow> load nv (Some (persist nt cs)) = Inr (chats_json cs))"
proof -
  have a: "load nv None = Inr (JArr [])" "load nv (Some []) = Inr (JArr [])"
    by (simp_all add: load_def truthy_str_def)
  have b: "s \<noteq> [] \<longrightarrow> load nv (Some s) = JSON_parse nv s"
    by (simp add: load_def truthy_str_def)
  have c: "payloads_settle nt nv cs \<longrightarrow>
             load nv (Some (persist nt cs)) = Inr (chats_json (reloaded nt nv cs))"
    using load_persist by blast
  have d: "payloads_ok nt nv cs \<longrightarrow> load nv (Some (persist nt cs)) = Inr (chats_json cs)"
    using load_persist [OF payloads_ok_settle, of nt nv cs] payloads_ok_reloaded [of nt nv cs]
    by simp
  show ?thesis
    using a b c d by blast
qed

text \<open>The persisted string \<open>{\<close> does not parse: \<open>load\<close> throws.\<close>

theorem load_throws: "load ex_nv (Some (lit ''{'')) = Inl SyntaxError"
  by (simp add: load_def truthy_str_def JSON_parse_def lit_def skip_ws_def is_json_ws_def)

theorem load_cases_witness:
  "load ex_nv None = Inr (JArr [])
   \<and> load ex_nv (Some []) = Inr (JArr [])
   \<and> load ex_nv (Some (lit ''{'')) = JSON_parse ex_nv (lit ''{'')
   \<and> load ex_nv (Some (persist ex_nt ex_saved)) = Inr (chats_json ex_saved)
   \<and> load ex_nv (Some (persist ex_nt ex_saved)) = Inr (chats_json (reloaded ex_nt ex_nv ex_saved))"
proof -
  have "lit ''{'' \<noteq> []"
    by (simp add: lit_def)
  moreover have "payloads_settle ex_nt ex_nv ex_saved"
    using ex_payloads_ok by (rule payloads_ok_settle)
  ultimately show ?thesis
    using load_cases [of ex_nv "lit ''{''" ex_nt ex_saved] ex_payloads_ok
      payloads_ok_reloaded [OF ex_payloads_ok]
    by simp
qed

text \<open>
  A payload that is the number \<open>Infinity\<close> is written as \<open>null\<close> and read back as \<open>null\<close>:
  the list loaded is not the list persisted.
\<close>

theorem roundtrip_loses_infinity:
  "load ex_nv (Some (persist ex_nt ex_inf)) =
     Inr (chats_json [(newChat (lit ''c1'') (lit ''t0'')) \<lparr>pdfData := Some JNull\<rparr>])
   \<and> load ex_nv (Some (persist ex_nt ex_inf)) \<noteq> Inr (chats_json ex_inf)"
proof -
  have "load ex_nv (Some (persist ex_nt ex_inf)) =
          Inr (chats_json [(newChat (lit ''c1'') (lit ''t0'')) \<lparr>pdfData := Some JNull\<rparr>])"
    using load_persist [OF ex_inf_settles] unfolding ex_inf_reloaded .
  then show ?thesis
    by (simp add: chats_json_def chat_json_def ex_inf_def newChat_def)
qed

end
